theory Spec2Isabelle
  imports Complex_Main
begin

section \<open>Turbine placement: parameter matrices, repair pass, constraint system\<close>

text \<open>
  The program is one script. Its inputs are the counts \<open>num_locations\<close>,
  \<open>num_water_areas\<close>, \<open>num_rain_zones\<close>, the two ranges, the cost parameters and the
  values drawn from the random generator: the coordinate arrays \<open>coords_j\<close>, \<open>coords_i\<close>
  (shapes \<open>(num_locations, 2)\<close> and \<open>(num_water_areas, 2)\<close>) and
  \<open>remaining_assignments\<close>. The drawn values are parameters of the model; a theorem
  that reads a coordinate array assumes its length, as the generator gives it. A
  coordinate is a finite double, that is, a real number; a distance is a double as
  \<open>np.linalg.norm\<close> returns it, possibly infinite. The matrices of \<open>np.zeros\<close> hold
  the values 0.0 and 1.0 only and are lists of rows of integers.
\<close>

subsection \<open>Arrays and exceptions\<close>

datatype py_error = ValueError | IndexError

type_synonym point = "real \<times> real"
type_synonym matrix = "int list list"

subsection \<open>Doubles and \<open>np.linalg.norm\<close>\<close>

text \<open>
  The value of a double: a real number or an infinity. No NaN is among them: the
  distances of finite coordinates are never NaN. The order is that of the doubles.
\<close>

datatype float64 = NInf | Fin real | PInf

instantiation float64 :: linorder
begin

fun less_eq_float64 :: "float64 \<Rightarrow> float64 \<Rightarrow> bool" where
  "less_eq_float64 NInf b = True"
| "less_eq_float64 (Fin x) NInf = False"
| "less_eq_float64 (Fin x) (Fin y) = (x \<le> y)"
| "less_eq_float64 (Fin x) PInf = True"
| "less_eq_float64 PInf PInf = True"
| "less_eq_float64 PInf b = False"

definition less_float64 :: "float64 \<Rightarrow> float64 \<Rightarrow> bool" where
  "less_float64 a b \<longleftrightarrow> a \<le> b \<and> \<not> b \<le> a"

instance
proof
  fix a b c :: float64
  show "(a < b) = (a \<le> b \<and> \<not> b \<le> a)" by (simp add: less_float64_def)
  show "a \<le> a" by (cases a) simp_all
  show "a \<le> b \<Longrightarrow> b \<le> c \<Longrightarrow> a \<le> c" by (cases a; cases b; cases c) simp_all
  show "a \<le> b \<Longrightarrow> b \<le> a \<Longrightarrow> a = b" by (cases a; cases b) simp_all
  show "a \<le> b \<or> b \<le> a" by (cases a; cases b) auto
qed

end

text \<open>
  Rounding of a real number to a double, to nearest with ties to even (IEEE 754
  binary64). \<open>rne\<close> rounds to an integer. In \<open>fl\<close>, \<open>e\<close> is the exponent of \<open>x\<close>, not
  below that of the subnormal numbers, \<open>q = 2 ^ (e - 52)\<close> is the spacing of the doubles
  around \<open>x\<close>, and a magnitude of at least \<open>2 ^ 1024 - 2 ^ 970\<close> (half a spacing above the
  largest double) overflows to an infinity. A magnitude of at most \<open>2 ^ (- 1075)\<close>
  underflows to 0.
\<close>

definition rne :: "real \<Rightarrow> int" where
  "rne y = (let f = \<lfloor>y\<rfloor>; d = y - of_int f
            in if d < 1 / 2 then f else if 1 / 2 < d then f + 1
               else if even f then f else f + 1)"

definition fl :: "real \<Rightarrow> float64" where
  "fl x =
     (if 2 ^ 1024 - 2 ^ 970 \<le> x then PInf
      else if x \<le> - (2 ^ 1024 - 2 ^ 970) then NInf
      else if x = 0 then Fin 0
      else let e = max \<lfloor>log 2 \<bar>x\<bar>\<rfloor> (- 1022); q = 2 powr of_int (e - 52)
           in Fin (of_int (rne (x / q)) * q))"

text \<open>
  \<open>np.linalg.norm(p - q)\<close> on two rows of a coordinate array, in doubles: the
  differences, their squares, the sum of the squares and its square root, each rounded
  (\<open>sqrt(x.dot(x))\<close>, the products not fused with the sum). An infinite difference has
  the square \<open>+inf\<close>, and a sum or square root of \<open>+inf\<close> is \<open>+inf\<close>.
\<close>

definition np_norm :: "point \<Rightarrow> point \<Rightarrow> float64" where
  "np_norm p q =
     (case (fl (fst p - fst q), fl (snd p - snd q)) of
        (Fin dx, Fin dy) \<Rightarrow>
          (case (fl (dx * dx), fl (dy * dy)) of
             (Fin a, Fin b) \<Rightarrow> (case fl (a + b) of Fin s \<Rightarrow> fl (sqrt s) | _ \<Rightarrow> PInf)
           | _ \<Rightarrow> PInf)
      | _ \<Rightarrow> PInf)"

text \<open>
  The functions below that call \<open>np.linalg.norm\<close> take it as their first argument
  \<open>linalg_norm\<close>: what is proved of them holds for whatever doubles the library
  returns. \<open>np_norm\<close> is the argument in the runs that are evaluated.

  The exact Euclidean distance, to compare with.
\<close>

definition euclidean_distance :: "point \<Rightarrow> point \<Rightarrow> real" where
  "euclidean_distance p q = sqrt ((fst p - fst q)\<^sup>2 + (snd p - snd q)\<^sup>2)"

subsection \<open>Arrays\<close>

text \<open>\<open>np.zeros((r, c))\<close>.\<close>

definition zeros :: "nat \<Rightarrow> nat \<Rightarrow> matrix" where
  "zeros r c = replicate r (replicate c 0)"

text \<open>\<open>M[i, j] = v\<close> for indices inside the array.\<close>

definition set_entry :: "matrix \<Rightarrow> nat \<Rightarrow> nat \<Rightarrow> int \<Rightarrow> matrix" where
  "set_entry M i j v = M[i := (M ! i)[j := v]]"

text \<open>\<open>M[i, j] = v\<close> with the bounds check of numpy (indices here are never negative).\<close>

definition set_item :: "matrix \<Rightarrow> nat \<Rightarrow> nat \<Rightarrow> int \<Rightarrow> py_error + matrix" where
  "set_item M i j v =
     (if i < length M \<and> j < length (M ! i) then Inr (set_entry M i j v) else Inl IndexError)"

text \<open>A \<open>for\<close> loop whose body may raise: the first exception ends the loop.\<close>

fun for_each :: "('a \<Rightarrow> 's \<Rightarrow> py_error + 's) \<Rightarrow> 'a list \<Rightarrow> 's \<Rightarrow> py_error + 's" where
  "for_each body [] s = Inr s"
| "for_each body (a # as) s =
     (case body a s of Inl e \<Rightarrow> Inl e | Inr s' \<Rightarrow> for_each body as s')"

text \<open>
  \<open>np.argmin\<close>: the index of the first occurrence of the minimum; \<open>ValueError\<close> on an
  empty sequence. The scan keeps the best index so far and replaces it only by a
  strictly smaller value.
\<close>

fun argmin_scan :: "float64 list \<Rightarrow> nat \<Rightarrow> nat \<Rightarrow> float64 \<Rightarrow> nat" where
  "argmin_scan [] i best m = best"
| "argmin_scan (d # ds) i best m =
     (if d < m then argmin_scan ds (Suc i) i d else argmin_scan ds (Suc i) best m)"

definition argmin :: "float64 list \<Rightarrow> py_error + nat" where
  "argmin ds = (case ds of [] \<Rightarrow> Inl ValueError | d # ds' \<Rightarrow> Inr (argmin_scan ds' 1 0 d))"

subsection \<open>Coverage matrix \<open>S_W\<close>\<close>

text \<open>
  \<^verbatim>\<open>
  S_W = np.zeros((num_water_areas, num_locations))
  for i in range(num_water_areas):
      for j in range(num_locations):
          distance = np.linalg.norm(coords_i[i] - coords_j[j])
          if distance <= water_sensor_range:
              S_W[i, j] = 1
  \<close>
\<close>

definition S_W_body ::
  "(point \<Rightarrow> point \<Rightarrow> float64) \<Rightarrow> float64 \<Rightarrow> point list \<Rightarrow> point list \<Rightarrow> nat \<Rightarrow> nat \<Rightarrow>
   matrix \<Rightarrow> matrix" where
  "S_W_body linalg_norm water_sensor_range coords_i coords_j i j S =
     (if linalg_norm (coords_i ! i) (coords_j ! j) \<le> water_sensor_range
      then set_entry S i j 1 else S)"

definition build_S_W ::
  "(point \<Rightarrow> point \<Rightarrow> float64) \<Rightarrow> nat \<Rightarrow> nat \<Rightarrow> float64 \<Rightarrow> point list \<Rightarrow> point list \<Rightarrow>
   matrix" where
  "build_S_W linalg_norm num_water_areas num_locations water_sensor_range coords_i coords_j =
     fold (\<lambda>i. fold (S_W_body linalg_norm water_sensor_range coords_i coords_j i)
                [0..<num_locations])
       [0..<num_water_areas] (zeros num_water_areas num_locations)"

subsection \<open>Repair pass\<close>

text \<open>
  \<^verbatim>\<open>
  for i in range(num_water_areas):
      if np.sum(S_W[i, :]) == 0:
          distances = [np.linalg.norm(coords_i[i] - coords_j[j]) for j in range(num_locations)]
          closest_j = np.argmin(distances)
          S_W[i, closest_j] = 1
  \<close>
\<close>

definition distances ::
  "(point \<Rightarrow> point \<Rightarrow> float64) \<Rightarrow> nat \<Rightarrow> point list \<Rightarrow> point list \<Rightarrow> nat \<Rightarrow> float64 list" where
  "distances linalg_norm num_locations coords_i coords_j i =
     map (\<lambda>j. linalg_norm (coords_i ! i) (coords_j ! j)) [0..<num_locations]"

definition repair_body ::
  "(point \<Rightarrow> point \<Rightarrow> float64) \<Rightarrow> nat \<Rightarrow> point list \<Rightarrow> point list \<Rightarrow> nat \<Rightarrow> matrix \<Rightarrow>
   py_error + matrix" where
  "repair_body linalg_norm num_locations coords_i coords_j i S =
     (if length S \<le> i then Inl IndexError
      else if sum_list (S ! i) = 0 then
        (case argmin (distances linalg_norm num_locations coords_i coords_j i) of
           Inl e \<Rightarrow> Inl e
         | Inr closest_j \<Rightarrow> set_item S i closest_j 1)
      else Inr S)"

definition repair_pass ::
  "(point \<Rightarrow> point \<Rightarrow> float64) \<Rightarrow> nat \<Rightarrow> nat \<Rightarrow> point list \<Rightarrow> point list \<Rightarrow> matrix \<Rightarrow>
   py_error + matrix" where
  "repair_pass linalg_norm num_water_areas num_locations coords_i coords_j S =
     for_each (repair_body linalg_norm num_locations coords_i coords_j) [0..<num_water_areas] S"

text \<open>
  The site the repair pass picks for water area \<open>i\<close>: at minimum computed distance, and
  the lowest index among those.
\<close>

definition nearest_site ::
  "(point \<Rightarrow> point \<Rightarrow> float64) \<Rightarrow> nat \<Rightarrow> point list \<Rightarrow> point list \<Rightarrow> nat \<Rightarrow> nat \<Rightarrow> bool" where
  "nearest_site linalg_norm num_locations coords_i coords_j i c \<longleftrightarrow>
     c < num_locations \<and>
     (\<forall>j < num_locations.
        linalg_norm (coords_i ! i) (coords_j ! c) \<le> linalg_norm (coords_i ! i) (coords_j ! j)) \<and>
     (\<forall>j < c. linalg_norm (coords_i ! i) (coords_j ! c) < linalg_norm (coords_i ! i) (coords_j ! j))"

text \<open>A matrix of \<open>r\<close> rows of \<open>c\<close> columns.\<close>

definition shape :: "matrix \<Rightarrow> nat \<Rightarrow> nat \<Rightarrow> bool" where
  "shape M r c \<longleftrightarrow> length M = r \<and> (\<forall>row \<in> set M. length row = c)"

subsection \<open>Rainfall zone matrix \<open>L_Z\<close>\<close>

text \<open>
  \<^verbatim>\<open>
  L_Z = np.zeros((num_rain_zones, num_locations))
  for i in range(num_rain_zones):
      L_Z[i, i] = 1
  remaining_assignments = np.random.randint(0, num_rain_zones, num_locations - num_rain_zones)
  for i, zone_idx in enumerate(remaining_assignments):
      L_Z[zone_idx, i + num_rain_zones] = 1
  \<close>
  The values drawn by \<open>randint\<close> are the parameter \<open>remaining_assignments\<close>.
\<close>

definition build_L_Z :: "nat \<Rightarrow> nat \<Rightarrow> nat list \<Rightarrow> py_error + matrix" where
  "build_L_Z num_rain_zones num_locations remaining_assignments =
     (case for_each (\<lambda>i L. set_item L i i 1) [0..<num_rain_zones]
             (zeros num_rain_zones num_locations) of
        Inl e \<Rightarrow> Inl e
      | Inr L \<Rightarrow>
          for_each (\<lambda>(i, zone_idx) L. set_item L zone_idx (i + num_rain_zones) 1)
            (enumerate 0 remaining_assignments) L)"

text \<open>The zone the construction gives to site \<open>j\<close>.\<close>

definition zone_of :: "nat \<Rightarrow> nat list \<Rightarrow> nat \<Rightarrow> nat" where
  "zone_of num_rain_zones remaining_assignments j =
     (if j < num_rain_zones then j else remaining_assignments ! (j - num_rain_zones))"

subsection \<open>Connectivity matrix \<open>V\<close>\<close>

text \<open>
  \<^verbatim>\<open>
  V = np.zeros((num_locations, num_locations))
  for j in range(num_locations):
      for k in range(j + 1, num_locations):
          distance = np.linalg.norm(coords_j[j] - coords_j[k])
          if distance <= comm_link_range:
              V[j, k] = 1
              V[k, j] = 1
  \<close>
\<close>

definition V_body ::
  "(point \<Rightarrow> point \<Rightarrow> float64) \<Rightarrow> float64 \<Rightarrow> point list \<Rightarrow> nat \<Rightarrow> nat \<Rightarrow> matrix \<Rightarrow> matrix" where
  "V_body linalg_norm comm_link_range coords_j j k V =
     (if linalg_norm (coords_j ! j) (coords_j ! k) \<le> comm_link_range
      then set_entry (set_entry V j k 1) k j 1 else V)"

definition build_V ::
  "(point \<Rightarrow> point \<Rightarrow> float64) \<Rightarrow> nat \<Rightarrow> float64 \<Rightarrow> point list \<Rightarrow> matrix" where
  "build_V linalg_norm num_locations comm_link_range coords_j =
     fold (\<lambda>j. fold (V_body linalg_norm comm_link_range coords_j j) [j + 1..<num_locations])
       [0..<num_locations] (zeros num_locations num_locations)"

subsection \<open>Decision variables, constraints and the assembled problem\<close>

text \<open>
  The variables \<open>x[j]\<close> (named \<open>Turbine\<close>) and \<open>y[(j, k)]\<close> (named \<open>Link\<close>), an affine
  expression as a list of terms (coefficient, variable) and a constant, and a
  constraint as two affine expressions and a sense. The names of the constraints are
  the labels of the source, with the indices of the f-strings as arguments.
\<close>

datatype var = Turbine nat | Link "nat \<times> nat"

type_synonym affine = "(int \<times> var) list \<times> int"

datatype sense = LE | EQ | GE

datatype cname =
    Force_Tree_Network
  | WaterCoverage nat
  | RainZone nat
  | LinkActivation nat nat
  | LineOfSight nat nat
  | ConnectivityEnforcement nat

record LpConstraint =
  c_lhs :: affine
  c_sense :: sense
  c_rhs :: affine

record LpProblem =
  variables :: "var list"
  objective :: affine
  constraints :: "(cname \<times> LpConstraint) list"

definition con :: "affine \<Rightarrow> sense \<Rightarrow> affine \<Rightarrow> LpConstraint" where
  "con l s r = \<lparr>c_lhs = l, c_sense = s, c_rhs = r\<rparr>"

text \<open>\<open>pulp.lpSum\<close> of terms, the sum of two expressions, a constant, a single variable.\<close>

definition lpSum :: "(int \<times> var) list \<Rightarrow> affine" where
  "lpSum ts = (ts, 0)"

definition aff_add :: "affine \<Rightarrow> affine \<Rightarrow> affine" where
  "aff_add a b = (fst a @ fst b, snd a + snd b)"

definition aff_const :: "int \<Rightarrow> affine" where
  "aff_const c = ([], c)"

definition aff_var :: "var \<Rightarrow> affine" where
  "aff_var v = ([(1, v)], 0)"

text \<open>
  \<^verbatim>\<open>
  locations = range(num_locations)
  links = [(j, k) for j in locations for k in locations if j < k]
  \<close>
\<close>

definition locations :: "nat \<Rightarrow> nat list" where
  "locations num_locations = [0..<num_locations]"

definition links :: "nat \<Rightarrow> (nat \<times> nat) list" where
  "links num_locations =
     concat (map (\<lambda>j. map (\<lambda>k. (j, k)) (filter (\<lambda>k. j < k) (locations num_locations)))
       (locations num_locations))"

text \<open>
  \<^verbatim>\<open>
  model += pulp.lpSum(x[j] for j in locations), "Minimize_Turbine_Count"
  model += pulp.lpSum(y[link] for link in links) == (pulp.lpSum(x[j] for j in locations) - 1), "Force_Tree_Network"
  for i in range(num_water_areas):
      model += pulp.lpSum(S_W[i, j] * x[j] for j in locations) >= 1, f"WaterCoverage_{i}"
  for z in range(num_rain_zones):
      model += pulp.lpSum(L_Z[z, j] * x[j] for j in locations) >= 1, f"RainZone_{z}"
  for j, k in links:
      model += 2 * y[(j, k)] <= x[j] + x[k], f"LinkActivation_{j}_{k}"
      model += y[(j, k)] <= V[j, k], f"LineOfSight_{j}_{k}"
  for j in locations:
      links_to_j = pulp.lpSum(y.get((k, j)) for k in locations if k < j)
      links_from_j = pulp.lpSum(y.get((j, k)) for k in locations if j < k)
      total_links_for_j = links_to_j + links_from_j
      model += total_links_for_j >= x[j], f"ConnectivityEnforcement_{j}"
  \<close>
\<close>

definition turbine_sum :: "nat \<Rightarrow> affine" where
  "turbine_sum num_locations = lpSum (map (\<lambda>j. (1, Turbine j)) (locations num_locations))"

definition tree_constraint :: "nat \<Rightarrow> cname \<times> LpConstraint" where
  "tree_constraint num_locations =
     (Force_Tree_Network,
      con (lpSum (map (\<lambda>link. (1, Link link)) (links num_locations))) EQ
          (aff_add (turbine_sum num_locations) (aff_const (- 1))))"

definition water_constraint :: "nat \<Rightarrow> matrix \<Rightarrow> nat \<Rightarrow> cname \<times> LpConstraint" where
  "water_constraint num_locations S_W i =
     (WaterCoverage i,
      con (lpSum (map (\<lambda>j. (S_W ! i ! j, Turbine j)) (locations num_locations))) GE (aff_const 1))"

definition zone_constraint :: "nat \<Rightarrow> matrix \<Rightarrow> nat \<Rightarrow> cname \<times> LpConstraint" where
  "zone_constraint num_locations L_Z z =
     (RainZone z,
      con (lpSum (map (\<lambda>j. (L_Z ! z ! j, Turbine j)) (locations num_locations))) GE (aff_const 1))"

definition link_constraints :: "matrix \<Rightarrow> nat \<times> nat \<Rightarrow> (cname \<times> LpConstraint) list" where
  "link_constraints V link =
     (case link of (j, k) \<Rightarrow>
       [(LinkActivation j k,
         con (lpSum [(2, Link (j, k))]) LE (aff_add (aff_var (Turbine j)) (aff_var (Turbine k)))),
        (LineOfSight j k,
         con (aff_var (Link (j, k))) LE (aff_const (V ! j ! k)))])"

definition degree_constraint :: "nat \<Rightarrow> nat \<Rightarrow> cname \<times> LpConstraint" where
  "degree_constraint num_locations j =
     (ConnectivityEnforcement j,
      con (aff_add
             (lpSum (map (\<lambda>k. (1, Link (k, j))) (filter (\<lambda>k. k < j) (locations num_locations))))
             (lpSum (map (\<lambda>k. (1, Link (j, k))) (filter (\<lambda>k. j < k) (locations num_locations)))))
          GE (aff_var (Turbine j)))"

definition assemble :: "nat \<Rightarrow> nat \<Rightarrow> nat \<Rightarrow> matrix \<Rightarrow> matrix \<Rightarrow> matrix \<Rightarrow> LpProblem" where
  "assemble num_locations num_water_areas num_rain_zones S_W L_Z V =
     \<lparr>variables = map Turbine (locations num_locations) @ map Link (links num_locations),
      objective = turbine_sum num_locations,
      constraints =
        tree_constraint num_locations
        # map (water_constraint num_locations S_W) [0..<num_water_areas]
        @ map (zone_constraint num_locations L_Z) [0..<num_rain_zones]
        @ concat (map (link_constraints V) (links num_locations))
        @ map (degree_constraint num_locations) (locations num_locations)\<rparr>"

subsection \<open>Assignments and feasibility\<close>

text \<open>
  An assignment gives every variable a value. Every variable is declared with
  \<open>cat='Binary'\<close>: a feasible assignment gives each declared variable 0 or 1 and
  satisfies every constraint.
\<close>

definition aff_value :: "(var \<Rightarrow> int) \<Rightarrow> affine \<Rightarrow> int" where
  "aff_value \<sigma> e = sum_list (map (\<lambda>t. fst t * \<sigma> (snd t)) (fst e)) + snd e"

definition holds :: "(var \<Rightarrow> int) \<Rightarrow> LpConstraint \<Rightarrow> bool" where
  "holds \<sigma> c =
     (case c_sense c of
        LE \<Rightarrow> aff_value \<sigma> (c_lhs c) \<le> aff_value \<sigma> (c_rhs c)
      | EQ \<Rightarrow> aff_value \<sigma> (c_lhs c) = aff_value \<sigma> (c_rhs c)
      | GE \<Rightarrow> aff_value \<sigma> (c_lhs c) \<ge> aff_value \<sigma> (c_rhs c))"

definition is_binary :: "(var \<Rightarrow> int) \<Rightarrow> var \<Rightarrow> bool" where
  "is_binary \<sigma> v \<longleftrightarrow> \<sigma> v = 0 \<or> \<sigma> v = 1"

definition feasible :: "LpProblem \<Rightarrow> (var \<Rightarrow> int) \<Rightarrow> bool" where
  "feasible p \<sigma> \<longleftrightarrow>
     list_all (is_binary \<sigma>) (variables p) \<and> list_all (\<lambda>nc. holds \<sigma> (snd nc)) (constraints p)"

text \<open>The constraints of a problem other than the one named \<open>nm\<close>.\<close>

definition constraints_except :: "LpProblem \<Rightarrow> cname \<Rightarrow> LpConstraint list" where
  "constraints_except p nm = map snd (filter (\<lambda>nc. fst nc \<noteq> nm) (constraints p))"

definition constraints_named :: "LpProblem \<Rightarrow> cname \<Rightarrow> LpConstraint list" where
  "constraints_named p nm = map snd (filter (\<lambda>nc. fst nc = nm) (constraints p))"

subsection \<open>The solver and the interpretation of its result\<close>

text \<open>
  \<open>model.solve()\<close> is the call into the external solver. Its statuses are those of
  \<open>pulp.LpStatus\<close>. What is used of the solver is its contract as an exact solver of
  a minimisation problem: it answers \<open>Optimal\<close> with a feasible assignment of least
  objective value, or \<open>Infeasible\<close> when there is no feasible assignment.
\<close>

datatype LpStatus = Not_Solved | Optimal | Infeasible | Unbounded | Undefined

definition solver_answer :: "LpProblem \<Rightarrow> LpStatus \<Rightarrow> (var \<Rightarrow> int) \<Rightarrow> bool" where
  "solver_answer p st \<sigma> \<longleftrightarrow>
     (st = Optimal \<and> feasible p \<sigma> \<and>
        (\<forall>\<sigma>'. feasible p \<sigma>' \<longrightarrow> aff_value \<sigma> (objective p) \<le> aff_value \<sigma>' (objective p)))
     \<or> (st = Infeasible \<and> (\<forall>\<sigma>'. \<not> feasible p \<sigma>'))"

text \<open>
  \<^verbatim>\<open>
  if pulp.LpStatus[model.status] == 'Optimal':
      selected_sites = [j for j in locations if x[j].varValue == 1]
      final_capex = len(selected_sites) * C_capex_per_turbine
      final_opex_annual = len(selected_sites) * C_opex_per_turbine
      final_total_cost = final_capex + (T * final_opex_annual)
      active_links = [link for link in links if y[link].varValue == 1]
  else: (nothing is derived)
  \<close>
\<close>

record Report =
  selected_sites :: "nat list"
  final_capex :: int
  final_opex_annual :: int
  final_total_cost :: int
  active_links :: "(nat \<times> nat) list"

definition interpret_result ::
  "nat \<Rightarrow> int \<Rightarrow> int \<Rightarrow> int \<Rightarrow> LpStatus \<Rightarrow> (var \<Rightarrow> int) \<Rightarrow> Report option" where
  "interpret_result num_locations C_capex_per_turbine C_opex_per_turbine T st \<sigma> =
     (if st = Optimal then
        (let selected = filter (\<lambda>j. \<sigma> (Turbine j) = 1) (locations num_locations);
             capex = int (length selected) * C_capex_per_turbine;
             opex_annual = int (length selected) * C_opex_per_turbine
         in Some \<lparr>selected_sites = selected,
                  final_capex = capex,
                  final_opex_annual = opex_annual,
                  final_total_cost = capex + T * opex_annual,
                  active_links = filter (\<lambda>link. \<sigma> (Link link) = 1) (links num_locations)\<rparr>)
      else None)"

section \<open>Doubles: values of the rounding and of the norm\<close>

lemma rne_of_int: "rne (of_int z) = z"
  by (simp add: rne_def)

lemma rne_near: "0 \<le> f \<Longrightarrow> f < 1 / 2 \<Longrightarrow> rne (of_int z + f) = z"
proof -
  assume f: "0 \<le> f" "f < 1 / 2"
  then have "\<lfloor>of_int z + f\<rfloor> = z" by (intro floor_unique) auto
  then show ?thesis using f by (simp add: rne_def)
qed

lemma fl_zero: "fl 0 = Fin 0"
  by (simp add: fl_def)

lemma fl_binade:
  assumes "2 powr of_int k \<le> \<bar>x\<bar>" and "\<bar>x\<bar> < 2 powr (of_int k + 1)"
    and "- 1022 \<le> k" and "k \<le> 1022"
  shows "fl x = Fin (of_int (rne (x / 2 powr of_int (k - 52))) * 2 powr of_int (k - 52))"
proof -
  have pos: "0 < \<bar>x\<bar>" using assms(1) by (smt (verit) powr_gt_zero)
  have e: "\<lfloor>log 2 \<bar>x\<bar>\<rfloor> = k" using assms(1,2) pos by (simp add: floor_log_eq_powr_iff)
  have "2 powr (of_int k + 1) \<le> (2::real) powr 1023" using assms(4) by (intro powr_mono) auto
  also have "\<dots> = 2 ^ 1023" by simp
  finally have "\<bar>x\<bar> < 2 ^ 1023" using assms(2) by simp
  moreover have "(2::real) ^ 1023 \<le> 2 ^ 1024 - 2 ^ 970" by simp
  ultimately have small: "\<bar>x\<bar> < 2 ^ 1024 - 2 ^ 970" by linarith
  have "max k (- 1022) = k" using assms(3) by simp
  with e small pos show ?thesis by (auto simp: fl_def Let_def)
qed

lemma fl_of_int:
  assumes "\<bar>m\<bar> < 2 ^ 53"
  shows "fl (of_int m) = Fin (of_int m)"
proof (cases "m = 0")
  case True
  then show ?thesis by (simp add: fl_zero)
next
  case False
  define x :: real where "x = of_int m"
  define k where "k = \<lfloor>log 2 \<bar>x\<bar>\<rfloor>"
  have x1: "1 \<le> \<bar>x\<bar>" using False by (simp add: x_def)
  have x53: "\<bar>x\<bar> < 2 ^ 53"
  proof -
    have "real_of_int \<bar>m\<bar> < real_of_int (2 ^ 53)" using assms by (subst of_int_less_iff)
    then show ?thesis by (simp add: x_def)
  qed
  have bin: "2 powr of_int k \<le> \<bar>x\<bar> \<and> \<bar>x\<bar> < 2 powr (of_int k + 1)"
    using floor_log_eq_powr_iff[of "\<bar>x\<bar>" 2 k] x1 by (simp add: k_def)
  have k0: "0 \<le> k" unfolding k_def using x1 by simp
  have k52: "k \<le> 52"
  proof (rule ccontr)
    assume "\<not> k \<le> 52"
    then have "53 \<le> k" by simp
    then have "(2::real) powr 53 \<le> 2 powr of_int k" by (intro powr_mono) auto
    with bin x53 show False by simp
  qed
  have q: "(2::real) powr of_int (k - 52) = 1 / 2 ^ nat (52 - k)"
    using k52 powr_real_of_int[of 2 "k - 52"] by (simp add: inverse_eq_divide del: of_int_diff)
  have "x / 2 powr of_int (k - 52) = of_int (m * 2 ^ nat (52 - k))"
    unfolding q by (simp add: x_def)
  then have r: "rne (x / 2 powr of_int (k - 52)) = m * 2 ^ nat (52 - k)"
    by (simp only: rne_of_int)
  have "fl x = Fin (of_int (rne (x / 2 powr of_int (k - 52))) * 2 powr of_int (k - 52))"
    using bin k0 k52 by (intro fl_binade) auto
  then have "fl x = Fin (of_int (m * 2 ^ nat (52 - k)) * 2 powr of_int (k - 52))"
    by (simp only: r)
  then show ?thesis unfolding q by (simp add: x_def)
qed

lemma np_norm_axis:
  assumes "\<bar>a - b\<bar> < 2 ^ 26"
  shows "np_norm (of_int a, y) (of_int b, y) = Fin (of_int \<bar>a - b\<bar>)"
proof -
  let ?d = "a - b"
  have d: "\<bar>?d\<bar> < 2 ^ 53" using assms by simp
  have "\<bar>?d\<bar> * \<bar>?d\<bar> < 2 ^ 26 * 2 ^ 26"
    using assms by (intro mult_strict_mono) auto
  then have dd: "\<bar>?d * ?d\<bar> < 2 ^ 53" by (simp add: abs_mult)
  have 1: "fl (of_int a - of_int b) = Fin (of_int ?d)" using fl_of_int[OF d] by simp
  have 2: "fl (of_int ?d * of_int ?d) = Fin (of_int (?d * ?d))" using fl_of_int[OF dd] by simp
  have 3: "fl (sqrt (of_int (?d * ?d))) = Fin (of_int \<bar>?d\<bar>)"
  proof -
    have "sqrt (of_int (?d * ?d)) = of_int \<bar>?d\<bar>" by (simp add: real_sqrt_mult_self)
    moreover have "\<bar>\<bar>?d\<bar>\<bar> < 2 ^ 53" using d by simp
    ultimately show ?thesis using fl_of_int[of "\<bar>?d\<bar>"] by simp
  qed
  show ?thesis using 1 2 3 fl_of_int[OF dd] by (simp add: np_norm_def fl_zero)
qed

lemmas np_norm_values =
  np_norm_axis[of 0 0 0, simplified]
  np_norm_axis[of 0 1000 0, simplified]
  np_norm_axis[of 1000 0 0, simplified]
  np_norm_axis[of 1000 1000 0, simplified]
  np_norm_axis[of 0 2000 0, simplified]
  np_norm_axis[of 3000 0 0, simplified]
  np_norm_axis[of 3000 2000 0, simplified]
  np_norm_axis[of 0 4000 0, simplified]
  np_norm_axis[of 1000 4000 0, simplified]



lemma fl_one: "fl 1 = Fin 1" using fl_of_int[of 1] by simp

lemma fl_minus_one: "fl (- 1) = Fin (- 1)" using fl_of_int[of "- 1"] by simp

lemma fl_tiny: "fl (- (1 / 2 ^ 30)) = Fin (- (1 / 2 ^ 30))"
proof -
  have "fl (- (1 / 2 ^ 30)) =
        Fin (of_int (rne (- (1 / 2 ^ 30) / 2 powr of_int (- 30 - 52))) * 2 powr of_int (- 30 - 52))"
    by (rule fl_binade) (simp_all add: powr_neg_numeral)
  moreover have "- (1 / 2 ^ 30) / 2 powr of_int (- 30 - 52) = real_of_int (- (2 ^ 52))"
    by (simp add: powr_neg_numeral)
  ultimately show ?thesis by (simp only: rne_of_int) (simp add: powr_neg_numeral)
qed

lemma fl_tiny_square: "fl (1 / 2 ^ 60) = Fin (1 / 2 ^ 60)"
proof -
  have "fl (1 / 2 ^ 60) =
        Fin (of_int (rne (1 / 2 ^ 60 / 2 powr of_int (- 60 - 52))) * 2 powr of_int (- 60 - 52))"
    by (rule fl_binade) (simp_all add: powr_neg_numeral)
  moreover have "1 / 2 ^ 60 / 2 powr of_int (- 60 - 52) = real_of_int (2 ^ 52)"
    by (simp add: powr_neg_numeral)
  ultimately show ?thesis by (simp only: rne_of_int) (simp add: powr_neg_numeral)
qed

lemma fl_one_plus_tiny: "fl (1 + 1 / 2 ^ 60) = Fin 1"
proof -
  have "fl (1 + 1 / 2 ^ 60) =
        Fin (of_int (rne ((1 + 1 / 2 ^ 60) / 2 powr of_int (0 - 52))) * 2 powr of_int (0 - 52))"
    by (rule fl_binade) (simp_all add: powr_neg_numeral)
  moreover have "(1 + 1 / 2 ^ 60) / 2 powr of_int (0 - 52) = real_of_int (2 ^ 52) + 1 / 2 ^ 8"
    by (simp add: powr_neg_numeral)
  moreover have "rne (real_of_int (2 ^ 52) + 1 / 2 ^ 8) = 2 ^ 52" by (rule rne_near) simp_all
  ultimately show ?thesis by (simp add: powr_neg_numeral)
qed

lemma np_norm_rounds: "np_norm (0, 0) (1, 1 / 2 ^ 30) = Fin 1"
  by (simp add: np_norm_def fl_minus_one fl_tiny[simplified] fl_one fl_tiny_square[simplified]
      fl_one_plus_tiny[simplified])

lemma np_norm_unit: "np_norm (0, 0) (1, 0) = Fin 1"
  using np_norm_axis[of 0 1 0] by simp

lemma euclid_exceeds: "1 < euclidean_distance (0, 0) (1, 1 / 2 ^ 30)"
proof -
  have "sqrt 1 < sqrt ((0 - 1)\<^sup>2 + (0 - 1 / 2 ^ 30)\<^sup>2)"
    by (subst real_sqrt_less_iff) simp
  then show ?thesis by (simp add: euclidean_distance_def)
qed

lemma fl_subnormal:
  assumes "x \<noteq> 0" and "\<bar>x\<bar> < 2 powr (- 1022)"
  shows "fl x = Fin (of_int (rne (x / 2 powr of_int (- 1074))) * 2 powr of_int (- 1074))"
proof -
  have "log 2 \<bar>x\<bar> < log 2 (2 powr (- 1022))"
    using assms by (subst log_less_cancel_iff) simp_all
  then have "\<lfloor>log 2 \<bar>x\<bar>\<rfloor> \<le> - 1022" by (simp add: floor_le_iff)
  then have e: "max \<lfloor>log 2 \<bar>x\<bar>\<rfloor> (- 1022) = - 1022" by simp
  have "(2::real) powr (- 1022) \<le> 2 powr 1023" by (intro powr_mono) auto
  also have "\<dots> = 2 ^ 1023" by simp
  finally have "\<bar>x\<bar> < 2 ^ 1023" using assms(2) by simp
  moreover have "(2::real) ^ 1023 \<le> 2 ^ 1024 - 2 ^ 970" by simp
  ultimately have small: "\<bar>x\<bar> < 2 ^ 1024 - 2 ^ 970" by linarith
  have "- 1022 - 52 = (- 1074 :: int)" by simp
  with e small assms(1) show ?thesis by (auto simp: fl_def Let_def simp del: of_int_diff)
qed

lemma fl_underflow: "fl (1 / 2 ^ 1200) = Fin 0"
proof -
  have a: "fl (1 / 2 ^ 1200) =
        Fin (of_int (rne (1 / 2 ^ 1200 / 2 powr of_int (- 1074))) * 2 powr of_int (- 1074))"
    by (rule fl_subnormal) (simp_all add: powr_neg_numeral)
  have b: "1 / 2 ^ 1200 / 2 powr of_int (- 1074) = real_of_int 0 + 1 / 2 ^ 126"
    by (simp add: powr_neg_numeral)
  have c: "rne (real_of_int 0 + 1 / 2 ^ 126) = 0" by (rule rne_near) simp_all
  show ?thesis unfolding a b c by simp
qed

lemma fl_small: "fl (- (1 / 2 ^ 600)) = Fin (- (1 / 2 ^ 600))"
proof -
  have "fl (- (1 / 2 ^ 600)) =
        Fin (of_int (rne (- (1 / 2 ^ 600) / 2 powr of_int (- 600 - 52))) * 2 powr of_int (- 600 - 52))"
    by (rule fl_binade) (simp_all add: powr_neg_numeral)
  moreover have "- (1 / 2 ^ 600) / 2 powr of_int (- 600 - 52) = real_of_int (- (2 ^ 52))"
    by (simp add: powr_neg_numeral)
  ultimately show ?thesis by (simp only: rne_of_int) (simp add: powr_neg_numeral)
qed

lemma np_norm_underflows: "np_norm (0, 0) (1 / 2 ^ 600, 0) = Fin 0"
  by (simp add: np_norm_def fl_small[simplified] fl_zero fl_underflow[simplified])

lemma fl_large: "fl (- (2 ^ 600)) = Fin (- (2 ^ 600))"
proof -
  have a: "fl (- (2 ^ 600)) =
        Fin (of_int (rne (- (2 ^ 600) / 2 powr of_int (600 - 52))) * 2 powr of_int (600 - 52))"
    by (rule fl_binade) simp_all
  have b: "- (2 ^ 600) / 2 powr of_int (600 - 52) = real_of_int (- (2 ^ 52))"
    by simp
  show ?thesis unfolding a b by (simp only: rne_of_int) simp
qed

lemma fl_overflow: "fl (2 ^ 1200) = PInf"
  by (simp add: fl_def)

lemma np_norm_overflows: "np_norm (0, 0) (2 ^ 600, 0) = PInf"
  by (simp add: np_norm_def fl_large[simplified] fl_zero fl_overflow[simplified])

section \<open>Arrays: shape and entries\<close>


lemma shape_zeros: "shape (zeros r c) r c"
  by (simp add: shape_def zeros_def)

lemma shape_nth: "shape M r c \<Longrightarrow> i < r \<Longrightarrow> length (M ! i) = c"
  by (simp add: shape_def)

lemma shape_length: "shape M r c \<Longrightarrow> length M = r"
  by (simp add: shape_def)

lemma shape_set_entry: "shape M r c \<Longrightarrow> shape (set_entry M i j v) r c"
proof -
  assume s: "shape M r c"
  have "\<forall>row \<in> set (M[i := (M ! i)[j := v]]). length row = c"
  proof
    fix row assume "row \<in> set (M[i := (M ! i)[j := v]])"
    then have "row \<in> insert ((M ! i)[j := v]) (set M)"
      using set_update_subset_insert by fastforce
    moreover have "i < length M \<or> M[i := (M ! i)[j := v]] = M" by (cases "i < length M") (auto simp: list_update_beyond)
    ultimately show "length row = c"
      using s \<open>row \<in> set (M[i := (M ! i)[j := v]])\<close> by (auto simp: shape_def)
  qed
  with s show ?thesis by (simp add: shape_def set_entry_def)
qed

lemma nth_set_entry:
  "i < length M \<Longrightarrow> j < length (M ! i) \<Longrightarrow>
   set_entry M i j v ! a ! b = (if a = i \<and> b = j then v else M ! a ! b)"
  by (auto simp: set_entry_def nth_list_update)

lemma nth_zeros: "a < r \<Longrightarrow> b < c \<Longrightarrow> zeros r c ! a ! b = 0"
  by (simp add: zeros_def)

lemma argmin_scan_spec:
  "best < length pre \<Longrightarrow> m = pre ! best \<Longrightarrow> i = length pre \<Longrightarrow>
   \<forall>j < length pre. m \<le> pre ! j \<Longrightarrow> \<forall>j < best. m < pre ! j \<Longrightarrow>
   argmin_scan ds i best m < length (pre @ ds) \<and>
   (\<forall>j < length (pre @ ds). (pre @ ds) ! argmin_scan ds i best m \<le> (pre @ ds) ! j) \<and>
   (\<forall>j < argmin_scan ds i best m. (pre @ ds) ! argmin_scan ds i best m < (pre @ ds) ! j)"
proof (induction ds arbitrary: pre best m i)
  case Nil
  then show ?case by simp
next
  case (Cons d ds)
  show ?case
  proof (cases "d < m")
    case True
    have a: "length pre < length (pre @ [d])" by simp
    have b: "d = (pre @ [d]) ! length pre" by simp
    have c: "\<forall>j < length (pre @ [d]). d \<le> (pre @ [d]) ! j"
      using Cons.prems(4) True by (auto simp: nth_append less_Suc_eq)
    have e: "\<forall>j < length pre. d < (pre @ [d]) ! j"
      using Cons.prems(4) True by (auto simp: nth_append)
    have "Suc i = length (pre @ [d])" using Cons.prems(3) by simp
    from Cons.IH[OF a b this c e] True Cons.prems(3) show ?thesis by simp
  next
    case False
    have a: "best < length (pre @ [d])" using Cons.prems(1) by simp
    have b: "m = (pre @ [d]) ! best" using Cons.prems(1,2) by (simp add: nth_append)
    have c: "\<forall>j < length (pre @ [d]). m \<le> (pre @ [d]) ! j"
      using Cons.prems(4) False by (auto simp: nth_append less_Suc_eq)
    have e: "\<forall>j < best. m < (pre @ [d]) ! j"
      using Cons.prems(1,5) by (auto simp: nth_append)
    have "Suc i = length (pre @ [d])" using Cons.prems(3) by simp
    from Cons.IH[OF a b this c e] False show ?thesis by simp
  qed
qed

lemma argmin_spec:
  assumes "argmin ds = Inr c"
  shows "c < length ds \<and> (\<forall>j < length ds. ds ! c \<le> ds ! j) \<and> (\<forall>j < c. ds ! c < ds ! j)"
proof (cases ds)
  case Nil
  with assms show ?thesis by (simp add: argmin_def)
next
  case (Cons d ds')
  with assms have c: "c = argmin_scan ds' 1 0 d" by (simp add: argmin_def)
  have "argmin_scan ds' 1 0 d < length ([d] @ ds') \<and>
   (\<forall>j < length ([d] @ ds'). ([d] @ ds') ! argmin_scan ds' 1 0 d \<le> ([d] @ ds') ! j) \<and>
   (\<forall>j < argmin_scan ds' 1 0 d. ([d] @ ds') ! argmin_scan ds' 1 0 d < ([d] @ ds') ! j)"
    by (rule argmin_scan_spec) auto
  with c Cons show ?thesis by simp
qed

lemma argmin_total: "ds \<noteq> [] \<Longrightarrow> \<exists>c. argmin ds = Inr c"
  by (cases ds) (auto simp: argmin_def)

lemma argmin_empty: "argmin [] = Inl ValueError"
  by (simp add: argmin_def)

lemma argmin_distances:
  "argmin (distances linalg_norm n ci cj i) = Inr c \<Longrightarrow> nearest_site linalg_norm n ci cj i c"
  using argmin_spec[of "distances linalg_norm n ci cj i" c]
  by (auto simp: nearest_site_def distances_def)

lemma nearest_site_unique:
  "nearest_site linalg_norm n ci cj i c \<Longrightarrow> nearest_site linalg_norm n ci cj i c' \<Longrightarrow> c = c'"
  unfolding nearest_site_def
  by (metis linorder_neqE_nat not_less)

section \<open>The coverage matrix and the repair loop\<close>


lemma S_W_body_step:
  assumes "shape S W n" "i < W" "j < n"
  shows "shape (S_W_body linalg_norm r ci cj i j S) W n"
    and "S_W_body linalg_norm r ci cj i j S ! a ! b =
           (if a = i \<and> b = j \<and> linalg_norm (ci ! i) (cj ! j) \<le> r then 1 else S ! a ! b)"
proof -
  show "shape (S_W_body linalg_norm r ci cj i j S) W n"
    using assms(1) by (simp add: S_W_body_def shape_set_entry)
  have "i < length S" "j < length (S ! i)"
    using assms by (simp_all add: shape_def)
  then show "S_W_body linalg_norm r ci cj i j S ! a ! b =
           (if a = i \<and> b = j \<and> linalg_norm (ci ! i) (cj ! j) \<le> r then 1 else S ! a ! b)"
    by (simp add: S_W_body_def nth_set_entry)
qed

lemma S_W_inner:
  "shape S W n \<Longrightarrow> i < W \<Longrightarrow> \<forall>j \<in> set js. j < n \<Longrightarrow>
   shape (fold (S_W_body linalg_norm r ci cj i) js S) W n \<and>
   (\<forall>a b. fold (S_W_body linalg_norm r ci cj i) js S ! a ! b =
      (if a = i \<and> b \<in> set js \<and> linalg_norm (ci ! i) (cj ! b) \<le> r then 1 else S ! a ! b))"
proof (induction js arbitrary: S)
  case Nil
  then show ?case by simp
next
  case (Cons j js)
  have j: "j < n" using Cons.prems(3) by simp
  note step = S_W_body_step[OF Cons.prems(1,2) j, where r = r and ci = ci and cj = cj]
  have "\<forall>j \<in> set js. j < n" using Cons.prems(3) by simp
  from Cons.IH[OF step(1) Cons.prems(2) this] show ?case
    by (auto simp: step(2))
qed

lemma S_W_outer:
  "shape S W n \<Longrightarrow> \<forall>i \<in> set is. i < W \<Longrightarrow>
   shape (fold (\<lambda>i. fold (S_W_body linalg_norm r ci cj i) [0..<n]) is S) W n \<and>
   (\<forall>a b. b < n \<longrightarrow> fold (\<lambda>i. fold (S_W_body linalg_norm r ci cj i) [0..<n]) is S ! a ! b =
      (if a \<in> set is \<and> linalg_norm (ci ! a) (cj ! b) \<le> r then 1 else S ! a ! b))"
proof (induction "is" arbitrary: S)
  case Nil
  then show ?case by simp
next
  case (Cons i "is")
  have i: "i < W" using Cons.prems(2) by simp
  have "\<forall>j \<in> set [0..<n]. j < n" by simp
  note inner = S_W_inner[OF Cons.prems(1) i this, where r = r and ci = ci and cj = cj]
  have "\<forall>i \<in> set is. i < W" using Cons.prems(2) by simp
  from Cons.IH[OF conjunct1[OF inner] this] show ?case
    by (auto simp: conjunct2[OF inner])
qed

lemma build_S_W_spec:
  "shape (build_S_W linalg_norm W n r ci cj) W n \<and>
   (\<forall>a b. b < n \<longrightarrow> build_S_W linalg_norm W n r ci cj ! a ! b =
      (if a \<in> set [0..<W] \<and> linalg_norm (ci ! a) (cj ! b) \<le> r then 1 else zeros W n ! a ! b))"
  unfolding build_S_W_def by (rule S_W_outer) (simp_all add: shape_zeros)

lemma shape_build_S_W: "shape (build_S_W linalg_norm W n r ci cj) W n"
  using build_S_W_spec by blast

lemma nth_build_S_W:
  "i < W \<Longrightarrow> j < n \<Longrightarrow>
   build_S_W linalg_norm W n r ci cj ! i ! j = (if linalg_norm (ci ! i) (cj ! j) \<le> r then 1 else 0)"
  using build_S_W_spec[of linalg_norm W n r ci cj] by (simp add: nth_zeros)

lemma sum_list_01_zero:
  assumes "\<forall>j < length row. row ! j = 0 \<or> row ! j = (1::int)"
  shows "sum_list row = 0 \<longleftrightarrow> (\<forall>j < length row. row ! j = 0)"
proof -
  have "\<And>x. x \<in> set row \<Longrightarrow> 0 \<le> x"
    using assms by (auto simp: in_set_conv_nth)
  then have "sum_list row = 0 \<longleftrightarrow> (\<forall>x \<in> set row. x = 0)"
    by (rule sum_list_nonneg_eq_0_iff)
  then show ?thesis by (simp add: all_set_conv_all_nth)
qed

lemma repair_body_Inr:
  assumes "repair_body linalg_norm n ci cj i S = Inr S'"
  shows "i < length S \<and> length S' = length S \<and> (\<forall>a. a \<noteq> i \<longrightarrow> S' ! a = S ! a) \<and>
         (if sum_list (S ! i) = 0
          then \<exists>c. argmin (distances linalg_norm n ci cj i) = Inr c \<and> c < length (S ! i) \<and>
                   S' ! i = (S ! i)[c := 1]
          else S' ! i = S ! i)"
proof -
  have i: "i < length S" using assms by (auto simp: repair_body_def split: if_splits)
  show ?thesis
  proof (cases "sum_list (S ! i) = 0")
    case False
    with assms i show ?thesis by (simp add: repair_body_def)
  next
    case True
    with assms i obtain c where c: "argmin (distances linalg_norm n ci cj i) = Inr c"
      and s: "set_item S i c 1 = Inr S'"
      by (auto simp: repair_body_def split: sum.splits)
    from s have "c < length (S ! i)" and "S' = S[i := (S ! i)[c := 1]]"
      by (auto simp: set_item_def set_entry_def split: if_splits)
    with i c True show ?thesis by auto
  qed
qed

lemma repair_loop_Inr:
  "for_each (repair_body linalg_norm n ci cj) is S = Inr S' \<Longrightarrow> distinct is \<Longrightarrow>
   length S' = length S \<and> (\<forall>a. a \<notin> set is \<longrightarrow> S' ! a = S ! a) \<and>
   (\<forall>i \<in> set is. i < length S \<and>
      (if sum_list (S ! i) = 0
       then \<exists>c. argmin (distances linalg_norm n ci cj i) = Inr c \<and> c < length (S ! i) \<and>
                S' ! i = (S ! i)[c := 1]
       else S' ! i = S ! i))"
proof (induction "is" arbitrary: S)
  case Nil
  then show ?case by simp
next
  case (Cons i "is")
  from Cons.prems(1) obtain S1 where b: "repair_body linalg_norm n ci cj i S = Inr S1"
    and l: "for_each (repair_body linalg_norm n ci cj) is S1 = Inr S'"
    by (auto split: sum.splits)
  have d: "distinct is" and ni: "i \<notin> set is" using Cons.prems(2) by simp_all
  note ih = Cons.IH[OF l d]
  note body = repair_body_Inr[OF b]
  have same: "\<And>a. a \<in> set is \<Longrightarrow> S1 ! a = S ! a" using body ni by auto
  have head: "S' ! i = S1 ! i" using ih ni by simp
  show ?case
  proof (intro conjI allI ballI impI)
    show "length S' = length S" using ih body by simp
  next
    fix a assume "a \<notin> set (i # is)"
    then show "S' ! a = S ! a" using ih body by simp
  next
    fix k assume k: "k \<in> set (i # is)"
    show "k < length S" using k ih body by auto
    show "if sum_list (S ! k) = 0
       then \<exists>c. argmin (distances linalg_norm n ci cj k) = Inr c \<and> c < length (S ! k) \<and>
                S' ! k = (S ! k)[c := 1]
       else S' ! k = S ! k"
    proof (cases "k = i")
      case True
      then show ?thesis using body head by simp
    next
      case False
      with k have "k \<in> set is" by simp
      then show ?thesis using ih same[of k] by auto
    qed
  qed
qed

lemma for_each_fixpoint:
  "\<forall>a \<in> set as. body a s = Inr s \<Longrightarrow> for_each body as s = Inr s"
  by (induction as) auto

lemma repair_body_total:
  assumes "shape S W n" "i < W" "0 < n"
  shows "\<exists>S'. repair_body linalg_norm n ci cj i S = Inr S' \<and> shape S' W n"
proof (cases "sum_list (S ! i) = 0")
  case False
  with assms show ?thesis by (auto simp: repair_body_def shape_def)
next
  case True
  have "distances linalg_norm n ci cj i \<noteq> []" using assms(3) by (simp add: distances_def)
  then obtain c where c: "argmin (distances linalg_norm n ci cj i) = Inr c" using argmin_total by blast
  then have "c < n" using argmin_spec[OF c] by (simp add: distances_def)
  then have "set_item S i c 1 = Inr (set_entry S i c 1)"
    using assms by (simp add: set_item_def shape_def)
  with c True assms show ?thesis
    by (auto simp: repair_body_def shape_length intro: shape_set_entry)
qed

lemma repair_loop_total:
  "shape S W n \<Longrightarrow> \<forall>i \<in> set is. i < W \<Longrightarrow> 0 < n \<Longrightarrow>
   \<exists>S'. for_each (repair_body linalg_norm n ci cj) is S = Inr S' \<and> shape S' W n"
proof (induction "is" arbitrary: S)
  case Nil
  then show ?case by simp
next
  case (Cons i "is")
  have "i < W" using Cons.prems(2) by simp
  from repair_body_total[OF Cons.prems(1) this Cons.prems(3)]
  obtain S1 where b: "repair_body linalg_norm n ci cj i S = Inr S1" and s: "shape S1 W n" by blast
  have "\<forall>i \<in> set is. i < W" using Cons.prems(2) by simp
  from Cons.IH[OF s this Cons.prems(3)] b show ?case by simp
qed

section \<open>The repair pass: post-condition and idempotence\<close>


lemma build_S_W_row_zero:
  assumes "i < W"
  shows "sum_list (build_S_W linalg_norm W n r ci cj ! i) = 0 \<longleftrightarrow> (\<forall>j < n. build_S_W linalg_norm W n r ci cj ! i ! j = 0)"
proof -
  have len: "length (build_S_W linalg_norm W n r ci cj ! i) = n"
    using shape_build_S_W assms by (rule shape_nth)
  have "\<forall>j < length (build_S_W linalg_norm W n r ci cj ! i).
          build_S_W linalg_norm W n r ci cj ! i ! j = 0 \<or> build_S_W linalg_norm W n r ci cj ! i ! j = 1"
    using assms len by (simp add: nth_build_S_W)
  from sum_list_01_zero[OF this] len show ?thesis by simp
qed

lemma repair_pass_some_site:
  assumes "0 < num_locations"
    and "length coords_i = num_water_areas"
    and "length coords_j = num_locations"
    and "S = build_S_W linalg_norm num_water_areas num_locations water_sensor_range coords_i coords_j"
  shows "\<exists>S'. repair_pass linalg_norm num_water_areas num_locations coords_i coords_j S = Inr S' \<and>
           shape S' num_water_areas num_locations \<and>
           (\<forall>i < num_water_areas.
              (if \<forall>j < num_locations. S ! i ! j = 0
               then \<exists>c. nearest_site linalg_norm num_locations coords_i coords_j i c \<and>
                        S' ! i = (S ! i)[c := 1]
               else S' ! i = S ! i) \<and>
              (\<exists>j < num_locations. S' ! i ! j = 1))"
proof -
  have sh: "shape S num_water_areas num_locations"
    unfolding assms(4) by (rule shape_build_S_W)
  have "\<forall>i \<in> set [0..<num_water_areas]. i < num_water_areas" by simp
  from repair_loop_total[OF sh this assms(1)]
  obtain S' where run: "for_each (repair_body linalg_norm num_locations coords_i coords_j) [0..<num_water_areas] S = Inr S'"
    and sh': "shape S' num_water_areas num_locations" by blast
  note rows = repair_loop_Inr[OF run distinct_upt]
  have "(if \<forall>j < num_locations. S ! i ! j = 0
         then \<exists>c. nearest_site linalg_norm num_locations coords_i coords_j i c \<and> S' ! i = (S ! i)[c := 1]
         else S' ! i = S ! i) \<and>
        (\<exists>j < num_locations. S' ! i ! j = 1)" if i: "i < num_water_areas" for i
  proof -
    have len: "length (S ! i) = num_locations" using sh i by (rule shape_nth)
    have z: "sum_list (S ! i) = 0 \<longleftrightarrow> (\<forall>j < num_locations. S ! i ! j = 0)"
      unfolding assms(4) using i by (rule build_S_W_row_zero)
    from rows i have row: "if sum_list (S ! i) = 0
       then \<exists>c. argmin (distances linalg_norm num_locations coords_i coords_j i) = Inr c \<and> c < length (S ! i) \<and>
                S' ! i = (S ! i)[c := 1]
       else S' ! i = S ! i" by simp
    show ?thesis
    proof (cases "\<forall>j < num_locations. S ! i ! j = 0")
      case True
      with z row obtain c where c: "argmin (distances linalg_norm num_locations coords_i coords_j i) = Inr c"
        and cl: "c < length (S ! i)" and eq: "S' ! i = (S ! i)[c := 1]" by auto
      have "nearest_site linalg_norm num_locations coords_i coords_j i c" using c by (rule argmin_distances)
      moreover have "c < num_locations \<and> S' ! i ! c = 1" using cl len eq by simp
      ultimately show ?thesis using True eq by auto
    next
      case False
      then obtain j where j: "j < num_locations" "S ! i ! j \<noteq> 0" by blast
      then have "S ! i ! j = 1" unfolding assms(4) using i by (simp add: nth_build_S_W split: if_splits)
      moreover have "S' ! i = S ! i" using False z row by simp
      ultimately show ?thesis using False j by auto
    qed
  qed
  with run sh' show ?thesis by (auto simp: repair_pass_def)
qed

lemma repair_pass_no_site:
  assumes "0 < W"
  shows "repair_pass linalg_norm W 0 ci cj (build_S_W linalg_norm W 0 r ci cj) = Inl ValueError"
proof -
  let ?S = "build_S_W linalg_norm W 0 r ci cj"
  have sh: "shape ?S W 0" by (rule shape_build_S_W)
  then have "length (?S ! 0) = 0" using assms by (rule shape_nth)
  then have row: "?S ! 0 = []" by simp
  have len: "length ?S = W" using sh by (rule shape_length)
  have "repair_body linalg_norm 0 ci cj 0 ?S = Inl ValueError"
    using assms len by (simp add: repair_body_def row distances_def argmin_def)
  moreover have "[0..<W] = 0 # [1..<W]" using assms by (simp add: upt_rec)
  ultimately show ?thesis by (simp add: repair_pass_def)
qed

text \<open>
  C3, in terms of the distances the program computes. With at least one candidate site,
  the repair pass on the coverage matrix built from the coordinates returns a matrix of
  the same shape; a row that was entirely zero differs from the old row in the single
  entry of the site at minimum computed distance (lowest index among those), now 1;
  every other row is unchanged; and afterwards every row has an entry 1. With no
  candidate site and at least one water area the pass raises \<open>ValueError\<close>.
\<close>

theorem repair_pass_postcondition:
  assumes "length coords_i = num_water_areas"
    and "length coords_j = num_locations"
    and "S = build_S_W linalg_norm num_water_areas num_locations water_sensor_range coords_i coords_j"
  shows "(0 < num_locations \<longrightarrow>
           (\<exists>S'. repair_pass linalg_norm num_water_areas num_locations coords_i coords_j S = Inr S' \<and>
              shape S' num_water_areas num_locations \<and>
              (\<forall>i < num_water_areas.
                 (if \<forall>j < num_locations. S ! i ! j = 0
                  then \<exists>c. nearest_site linalg_norm num_locations coords_i coords_j i c \<and>
                           S' ! i = (S ! i)[c := 1]
                  else S' ! i = S ! i) \<and>
                 (\<exists>j < num_locations. S' ! i ! j = 1)))) \<and>
         (num_locations = 0 \<and> 0 < num_water_areas \<longrightarrow>
            repair_pass linalg_norm num_water_areas num_locations coords_i coords_j S = Inl ValueError)"
proof (intro conjI impI)
  assume "0 < num_locations"
  from repair_pass_some_site[OF this assms]
  show "\<exists>S'. repair_pass linalg_norm num_water_areas num_locations coords_i coords_j S = Inr S' \<and>
              shape S' num_water_areas num_locations \<and>
              (\<forall>i < num_water_areas.
                 (if \<forall>j < num_locations. S ! i ! j = 0
                  then \<exists>c. nearest_site linalg_norm num_locations coords_i coords_j i c \<and>
                           S' ! i = (S ! i)[c := 1]
                  else S' ! i = S ! i) \<and>
                 (\<exists>j < num_locations. S' ! i ! j = 1))" .
next
  assume "num_locations = 0 \<and> 0 < num_water_areas"
  then show "repair_pass linalg_norm num_water_areas num_locations coords_i coords_j S = Inl ValueError"
    unfolding assms(3) by (simp add: repair_pass_no_site)
qed

theorem repair_pass_postcondition_witness:
  "length ([(0, 0), (3000, 0)] :: point list) = (2::nat) \<and>
   length ([(0, 0), (2000, 0)] :: point list) = (2::nat) \<and>
   (\<exists>S'. repair_pass np_norm 2 2 [(0, 0), (3000, 0)] [(0, 0), (2000, 0)]
            (build_S_W np_norm 2 2 (Fin 500) [(0, 0), (3000, 0)] [(0, 0), (2000, 0)]) = Inr S' \<and>
         shape S' 2 2 \<and>
         (\<forall>i < 2.
            (if \<forall>j < 2. build_S_W np_norm 2 2 (Fin 500) [(0, 0), (3000, 0)] [(0, 0), (2000, 0)] ! i ! j = 0
             then \<exists>c. nearest_site np_norm 2 [(0, 0), (3000, 0)] [(0, 0), (2000, 0)] i c \<and>
                      S' ! i = (build_S_W np_norm 2 2 (Fin 500) [(0, 0), (3000, 0)] [(0, 0), (2000, 0)] ! i)[c := 1]
             else S' ! i = build_S_W np_norm 2 2 (Fin 500) [(0, 0), (3000, 0)] [(0, 0), (2000, 0)] ! i) \<and>
            (\<exists>j < 2. S' ! i ! j = 1))) \<and>
   length ([(0, 0)] :: point list) = (1::nat) \<and> length ([] :: point list) = (0::nat) \<and>
   repair_pass np_norm 1 0 [(0, 0)] [] (build_S_W np_norm 1 0 (Fin 500) [(0, 0)] []) =
     Inl ValueError"
proof -
  have h0: "(0::nat) < 2" by simp
  have h2: "length ([(0, 0), (3000, 0)] :: point list) = (2::nat)" by simp
  have h3: "length ([(0, 0), (2000, 0)] :: point list) = (2::nat)" by simp
  have g0: "(0::nat) = 0 \<and> (0::nat) < 1" by simp
  have g2: "length ([(0, 0)] :: point list) = (1::nat)" by simp
  have g3: "length ([] :: point list) = (0::nat)" by simp
  from repair_pass_postcondition[OF h2 h3 refl, where linalg_norm = np_norm
      and water_sensor_range = "Fin 500"]
    repair_pass_postcondition[OF g2 g3 refl, where linalg_norm = np_norm
      and water_sensor_range = "Fin 500"] h0 h2 h3 g0 g2 g3
  show ?thesis by blast
qed

lemma repair_example_value:
  "build_S_W np_norm 2 2 (Fin 500) [(0, 0), (3000, 0)] [(0, 0), (2000, 0)] = [[1, 0], [0, 0]] \<and>
   repair_pass np_norm 2 2 [(0, 0), (3000, 0)] [(0, 0), (2000, 0)] [[1, 0], [0, 0]] = Inr [[1, 0], [0, 1]]"
  by (simp add: build_S_W_def S_W_body_def zeros_def set_entry_def np_norm_values
      less_float64_def repair_pass_def repair_body_def distances_def argmin_def set_item_def
      upt_rec eval_nat_numeral)

text \<open>
  With no candidate site and one water area the row is empty, its sum is 0, and
  \<open>np.argmin\<close> of the empty list of distances raises: no repaired matrix exists. And
  the minimum is that of the computed distances: for the water area \<open>(0, 0)\<close> and the
  sites \<open>(1, 2 ^ (- 30))\<close> and \<open>(1, 0)\<close> both distances are the double 1, the pass sets
  the entry of site 0, and site 1 is strictly nearer.
\<close>

theorem repair_pass_no_sites_counterexample:
  "repair_pass np_norm 1 0 [(0, 0)] [] (build_S_W np_norm 1 0 (Fin 500) [(0, 0)] []) = Inl ValueError \<and>
   build_S_W np_norm 1 2 (Fin (1 / 2)) [(0, 0)] [(1, 1 / 2 ^ 30), (1, 0)] = [[0, 0]] \<and>
   repair_pass np_norm 1 2 [(0, 0)] [(1, 1 / 2 ^ 30), (1, 0)] [[0, 0]] = Inr [[1, 0]] \<and>
   euclidean_distance (0, 0) (1, 0) < euclidean_distance (0, 0) (1, 1 / 2 ^ 30)"
proof (intro conjI)
  show "repair_pass np_norm 1 0 [(0, 0)] [] (build_S_W np_norm 1 0 (Fin 500) [(0, 0)] []) = Inl ValueError"
    by (simp add: build_S_W_def zeros_def repair_pass_def repair_body_def distances_def argmin_def)
  show "build_S_W np_norm 1 2 (Fin (1 / 2)) [(0, 0)] [(1, 1 / 2 ^ 30), (1, 0)] = [[0, 0]]"
    by (simp add: build_S_W_def S_W_body_def zeros_def set_entry_def np_norm_rounds[simplified]
        np_norm_unit upt_rec eval_nat_numeral)
  show "repair_pass np_norm 1 2 [(0, 0)] [(1, 1 / 2 ^ 30), (1, 0)] [[0, 0]] = Inr [[1, 0]]"
    by (simp add: repair_pass_def repair_body_def distances_def argmin_def set_item_def
        set_entry_def np_norm_rounds[simplified] np_norm_unit less_float64_def upt_rec
        eval_nat_numeral)
  show "euclidean_distance (0, 0) (1, 0) < euclidean_distance (0, 0) (1, 1 / 2 ^ 30)"
    using euclid_exceeds by (simp add: euclidean_distance_def)
qed

lemma repair_pass_fixpoint:
  assumes "repair_pass linalg_norm num_water_areas num_locations coords_i coords_j S = Inr S'"
  shows "repair_pass linalg_norm num_water_areas num_locations coords_i coords_j S' = Inr S'"
proof -
  from assms have run:
    "for_each (repair_body linalg_norm num_locations coords_i coords_j) [0..<num_water_areas] S = Inr S'"
    by (simp add: repair_pass_def)
  note rows = repair_loop_Inr[OF run distinct_upt]
  have len: "length S' = length S" using rows by simp
  have "repair_body linalg_norm num_locations coords_i coords_j i S' = Inr S'"
    if "i \<in> set [0..<num_water_areas]" for i
  proof -
    from rows that have i: "i < length S" and row: "if sum_list (S ! i) = 0
       then \<exists>c. argmin (distances linalg_norm num_locations coords_i coords_j i) = Inr c \<and> c < length (S ! i) \<and>
                S' ! i = (S ! i)[c := 1]
       else S' ! i = S ! i" by auto
    show ?thesis
    proof (cases "sum_list (S' ! i) = 0")
      case False
      with i len show ?thesis by (simp add: repair_body_def)
    next
      case True
      show ?thesis
      proof (cases "sum_list (S ! i) = 0")
        case False
        with row True show ?thesis by simp
      next
        case z: True
        with row obtain c where c: "argmin (distances linalg_norm num_locations coords_i coords_j i) = Inr c"
          and cl: "c < length (S ! i)" and eq: "S' ! i = (S ! i)[c := 1]" by auto
        have "(S' ! i)[c := 1] = S' ! i" using eq by simp
        then have "set_entry S' i c 1 = S'" by (simp add: set_entry_def)
        moreover have "c < length (S' ! i)" using cl eq by simp
        ultimately show ?thesis using True c i len by (simp add: repair_body_def set_item_def)
      qed
    qed
  qed
  then have "for_each (repair_body linalg_norm num_locations coords_i coords_j) [0..<num_water_areas] S' = Inr S'"
    by (intro for_each_fixpoint ballI)
  then show ?thesis by (simp add: repair_pass_def)
qed

text \<open>
  C4. The repair pass is idempotent. Running it twice, the second run on the matrix the
  first run returns (an exception of the first run ends both), gives the result of
  running it once, for every matrix, whatever its shape and entries, and all
  coordinates: a pass on an already repaired matrix returns that matrix.
\<close>

theorem repair_pass_idempotent:
  assumes "length coords_i = num_water_areas"
    and "length coords_j = num_locations"
  shows "(case repair_pass linalg_norm num_water_areas num_locations coords_i coords_j S of
            Inl e \<Rightarrow> Inl e
          | Inr S' \<Rightarrow> repair_pass linalg_norm num_water_areas num_locations coords_i coords_j S') =
         repair_pass linalg_norm num_water_areas num_locations coords_i coords_j S"
proof (cases "repair_pass linalg_norm num_water_areas num_locations coords_i coords_j S")
  case (Inl e)
  then show ?thesis by simp
next
  case (Inr S')
  then show ?thesis by (simp add: repair_pass_fixpoint)
qed

theorem repair_pass_idempotent_witness:
  "length ([(0, 0), (3000, 0)] :: point list) = 2 \<and>
   length ([(0, 0), (2000, 0)] :: point list) = 2 \<and>
   repair_pass np_norm 2 2 [(0, 0), (3000, 0)] [(0, 0), (2000, 0)] [[1, 0], [0, 0]] = Inr [[1, 0], [0, 1]] \<and>
   repair_pass np_norm 2 2 [(0, 0), (3000, 0)] [(0, 0), (2000, 0)] [[1, 0], [0, 1]] = Inr [[1, 0], [0, 1]]"
proof -
  have h1: "length ([(0, 0), (3000, 0)] :: point list) = 2" by simp
  have h2: "length ([(0, 0), (2000, 0)] :: point list) = 2" by simp
  have h: "repair_pass np_norm 2 2 [(0, 0), (3000, 0)] [(0, 0), (2000, 0)] [[1, 0], [0, 0]] = Inr [[1, 0], [0, 1]]"
    by (simp add: np_norm_values less_float64_def repair_pass_def repair_body_def distances_def argmin_def set_item_def
        set_entry_def upt_rec)
  from repair_pass_idempotent[OF h1 h2, where linalg_norm = np_norm and S = "[[1, 0], [0, 0]]"]
  have "repair_pass np_norm 2 2 [(0, 0), (3000, 0)] [(0, 0), (2000, 0)] [[1, 0], [0, 1]] = Inr [[1, 0], [0, 1]]"
    unfolding h by simp
  with h h1 h2 show ?thesis by simp
qed

section \<open>The connectivity matrix\<close>


lemma V_body_step:
  assumes "shape V n n" "j < n" "k < n"
  shows "shape (V_body linalg_norm r cj j k V) n n"
    and "V_body linalg_norm r cj j k V ! a ! b =
           (if ((a = j \<and> b = k) \<or> (a = k \<and> b = j)) \<and> linalg_norm (cj ! j) (cj ! k) \<le> r
            then 1 else V ! a ! b)"
proof -
  have s1: "shape (set_entry V j k 1) n n" using assms(1) by (rule shape_set_entry)
  show "shape (V_body linalg_norm r cj j k V) n n"
    using assms(1) s1 by (simp add: V_body_def shape_set_entry)
  have 1: "j < length V" "k < length (V ! j)"
    using assms by (simp_all add: shape_def)
  have 2: "k < length (set_entry V j k 1)" "j < length (set_entry V j k 1 ! k)"
    using s1 assms by (simp_all add: shape_def)
  show "V_body linalg_norm r cj j k V ! a ! b =
           (if ((a = j \<and> b = k) \<or> (a = k \<and> b = j)) \<and> linalg_norm (cj ! j) (cj ! k) \<le> r
            then 1 else V ! a ! b)"
    by (auto simp: V_body_def nth_set_entry[OF 2] nth_set_entry[OF 1])
qed

lemma V_inner:
  "shape V n n \<Longrightarrow> j < n \<Longrightarrow> \<forall>k \<in> set ks. k < n \<Longrightarrow>
   shape (fold (V_body linalg_norm r cj j) ks V) n n \<and>
   (\<forall>a b. fold (V_body linalg_norm r cj j) ks V ! a ! b =
      (if (a = j \<and> b \<in> set ks \<and> linalg_norm (cj ! j) (cj ! b) \<le> r) \<or>
          (b = j \<and> a \<in> set ks \<and> linalg_norm (cj ! j) (cj ! a) \<le> r)
       then 1 else V ! a ! b))"
proof (induction ks arbitrary: V)
  case Nil
  then show ?case by simp
next
  case (Cons k ks)
  let ?V1 = "V_body linalg_norm r cj j k V"
  have k: "k < n" using Cons.prems(3) by simp
  note step = V_body_step[OF Cons.prems(1,2) k, where r = r and cj = cj]
  have "\<forall>k \<in> set ks. k < n" using Cons.prems(3) by simp
  note ih = Cons.IH[OF step(1) Cons.prems(2) this]
  show ?case
  proof (intro conjI allI)
    show "shape (fold (V_body linalg_norm r cj j) (k # ks) V) n n" using ih by simp
  next
    fix a b
    have e1: "fold (V_body linalg_norm r cj j) (k # ks) V ! a ! b =
      (if (a = j \<and> b \<in> set ks \<and> linalg_norm (cj ! j) (cj ! b) \<le> r) \<or>
          (b = j \<and> a \<in> set ks \<and> linalg_norm (cj ! j) (cj ! a) \<le> r)
       then 1 else ?V1 ! a ! b)"
      using ih by simp
    have e2: "?V1 ! a ! b =
           (if ((a = j \<and> b = k) \<or> (a = k \<and> b = j)) \<and> linalg_norm (cj ! j) (cj ! k) \<le> r
            then 1 else V ! a ! b)"
      by (rule step(2))
    show "fold (V_body linalg_norm r cj j) (k # ks) V ! a ! b =
      (if (a = j \<and> b \<in> set (k # ks) \<and> linalg_norm (cj ! j) (cj ! b) \<le> r) \<or>
          (b = j \<and> a \<in> set (k # ks) \<and> linalg_norm (cj ! j) (cj ! a) \<le> r)
       then 1 else V ! a ! b)"
    proof -
      have c: "((a = j \<and> b \<in> set (k # ks) \<and> linalg_norm (cj ! j) (cj ! b) \<le> r) \<or>
                (b = j \<and> a \<in> set (k # ks) \<and> linalg_norm (cj ! j) (cj ! a) \<le> r)) \<longleftrightarrow>
               ((a = j \<and> b \<in> set ks \<and> linalg_norm (cj ! j) (cj ! b) \<le> r) \<or>
                (b = j \<and> a \<in> set ks \<and> linalg_norm (cj ! j) (cj ! a) \<le> r)) \<or>
               (((a = j \<and> b = k) \<or> (a = k \<and> b = j)) \<and> linalg_norm (cj ! j) (cj ! k) \<le> r)"
        by (simp only: set_simps insert_iff) blast
      show ?thesis unfolding e1 e2 c by (simp; blast)
    qed
  qed
qed

lemma V_outer:
  "shape V n n \<Longrightarrow> \<forall>j \<in> set js. j < n \<Longrightarrow>
   shape (fold (\<lambda>j. fold (V_body linalg_norm r cj j) [Suc j..<n]) js V) n n \<and>
   (\<forall>a b. a < n \<longrightarrow> b < n \<longrightarrow>
      fold (\<lambda>j. fold (V_body linalg_norm r cj j) [Suc j..<n]) js V ! a ! b =
      (if (a \<in> set js \<and> a < b \<and> linalg_norm (cj ! a) (cj ! b) \<le> r) \<or>
          (b \<in> set js \<and> b < a \<and> linalg_norm (cj ! b) (cj ! a) \<le> r)
       then 1 else V ! a ! b))"
proof (induction js arbitrary: V)
  case Nil
  then show ?case by simp
next
  case (Cons j js)
  let ?V1 = "fold (V_body linalg_norm r cj j) [Suc j..<n] V"
  have j: "j < n" using Cons.prems(2) by simp
  have "\<forall>k \<in> set [Suc j..<n]. k < n" by simp
  note inner = V_inner[OF Cons.prems(1) j this, where r = r and cj = cj]
  have "\<forall>j \<in> set js. j < n" using Cons.prems(2) by simp
  note ih = Cons.IH[OF conjunct1[OF inner] this]
  show ?case
  proof (intro conjI allI impI)
    show "shape (fold (\<lambda>j. fold (V_body linalg_norm r cj j) [Suc j..<n]) (j # js) V) n n" using ih by simp
  next
    fix a b assume ab: "a < n" "b < n"
    have e1: "fold (\<lambda>j. fold (V_body linalg_norm r cj j) [Suc j..<n]) (j # js) V ! a ! b =
      (if (a \<in> set js \<and> a < b \<and> linalg_norm (cj ! a) (cj ! b) \<le> r) \<or>
          (b \<in> set js \<and> b < a \<and> linalg_norm (cj ! b) (cj ! a) \<le> r)
       then 1 else ?V1 ! a ! b)"
      using ih ab by simp
    have e2: "?V1 ! a ! b =
      (if (a = j \<and> b \<in> set [Suc j..<n] \<and> linalg_norm (cj ! j) (cj ! b) \<le> r) \<or>
          (b = j \<and> a \<in> set [Suc j..<n] \<and> linalg_norm (cj ! j) (cj ! a) \<le> r)
       then 1 else V ! a ! b)"
      using inner by blast
    show "fold (\<lambda>j. fold (V_body linalg_norm r cj j) [Suc j..<n]) (j # js) V ! a ! b =
      (if (a \<in> set (j # js) \<and> a < b \<and> linalg_norm (cj ! a) (cj ! b) \<le> r) \<or>
          (b \<in> set (j # js) \<and> b < a \<and> linalg_norm (cj ! b) (cj ! a) \<le> r)
       then 1 else V ! a ! b)"
    proof -
      have c: "((a \<in> set (j # js) \<and> a < b \<and> linalg_norm (cj ! a) (cj ! b) \<le> r) \<or>
                (b \<in> set (j # js) \<and> b < a \<and> linalg_norm (cj ! b) (cj ! a) \<le> r)) \<longleftrightarrow>
               ((a \<in> set js \<and> a < b \<and> linalg_norm (cj ! a) (cj ! b) \<le> r) \<or>
                (b \<in> set js \<and> b < a \<and> linalg_norm (cj ! b) (cj ! a) \<le> r)) \<or>
               ((a = j \<and> b \<in> set [Suc j..<n] \<and> linalg_norm (cj ! j) (cj ! b) \<le> r) \<or>
                (b = j \<and> a \<in> set [Suc j..<n] \<and> linalg_norm (cj ! j) (cj ! a) \<le> r))"
        using ab by (simp only: set_simps insert_iff set_upt atLeastLessThan_iff Suc_le_eq) blast
      show ?thesis unfolding e1 e2 c by (simp; blast)
    qed
  qed
qed

lemma build_V_spec:
  "shape (build_V linalg_norm n r cj) n n \<and>
   (\<forall>a b. a < n \<longrightarrow> b < n \<longrightarrow> build_V linalg_norm n r cj ! a ! b =
      (if (a \<in> set [0..<n] \<and> a < b \<and> linalg_norm (cj ! a) (cj ! b) \<le> r) \<or>
          (b \<in> set [0..<n] \<and> b < a \<and> linalg_norm (cj ! b) (cj ! a) \<le> r)
       then 1 else zeros n n ! a ! b))"
  unfolding build_V_def Suc_eq_plus1[symmetric] by (rule V_outer) (simp_all add: shape_zeros)

lemma shape_build_V: "shape (build_V linalg_norm n r cj) n n"
  using build_V_spec by blast

lemma nth_build_V:
  assumes "j < n" "k < n"
  shows "build_V linalg_norm n r cj ! j ! k =
         (if j \<noteq> k \<and> linalg_norm (cj ! min j k) (cj ! max j k) \<le> r then 1 else 0)"
proof -
  have "build_V linalg_norm n r cj ! j ! k =
      (if (j < k \<and> linalg_norm (cj ! j) (cj ! k) \<le> r) \<or> (k < j \<and> linalg_norm (cj ! k) (cj ! j) \<le> r)
       then 1 else 0)"
    using build_V_spec[of linalg_norm n r cj] assms by (simp add: nth_zeros)
  then show ?thesis by (auto simp: min_def max_def)
qed

text \<open>
  C9, in terms of the distances the program computes. The connectivity matrix built from
  the site coordinates is symmetric, has a zero diagonal, holds only the values 0 and
  1, and has a 1 at \<open>(j, k)\<close> exactly when \<open>j \<noteq> k\<close> and the distance computed for the
  pair (\<open>np.linalg.norm\<close> of the site of lower index minus the site of higher index) is
  at most \<open>comm_link_range\<close>.
\<close>

theorem build_V_symmetric_zero_diagonal:
  assumes "length coords_j = num_locations"
    and "V = build_V linalg_norm num_locations comm_link_range coords_j"
  shows "shape V num_locations num_locations \<and>
         (\<forall>j < num_locations. \<forall>k < num_locations. V ! j ! k = V ! k ! j) \<and>
         (\<forall>j < num_locations. V ! j ! j = 0) \<and>
         (\<forall>j < num_locations. \<forall>k < num_locations.
            (V ! j ! k = 0 \<or> V ! j ! k = 1) \<and>
            (V ! j ! k = 1 \<longleftrightarrow>
               j \<noteq> k \<and>
               linalg_norm (coords_j ! min j k) (coords_j ! max j k) \<le> comm_link_range))"
proof (intro conjI allI impI)
  show "shape V num_locations num_locations" unfolding assms(2) by (rule shape_build_V)
next
  fix j k assume "j < num_locations" "k < num_locations"
  then show "V ! j ! k = V ! k ! j"
    unfolding assms(2) by (auto simp: nth_build_V min.commute max.commute)
next
  fix j assume "j < num_locations"
  then show "V ! j ! j = 0" unfolding assms(2) by (simp add: nth_build_V)
next
  fix j k assume "j < num_locations" "k < num_locations"
  then show "V ! j ! k = 0 \<or> V ! j ! k = 1" unfolding assms(2) by (simp add: nth_build_V)
next
  fix j k assume "j < num_locations" "k < num_locations"
  then show "V ! j ! k = 1 \<longleftrightarrow>
      j \<noteq> k \<and> linalg_norm (coords_j ! min j k) (coords_j ! max j k) \<le> comm_link_range"
    unfolding assms(2) by (simp add: nth_build_V)
qed

lemma build_V_example_value:
  "build_V np_norm 3 (Fin 1500) [(0, 0), (1000, 0), (4000, 0)] = [[0, 1, 0], [1, 0, 0], [0, 0, 0]]"
  by (simp add: build_V_def V_body_def zeros_def set_entry_def np_norm_values upt_rec
      eval_nat_numeral)

theorem build_V_symmetric_zero_diagonal_witness:
  "length ([(0, 0), (1000, 0), (4000, 0)] :: point list) = (3::nat) \<and>
   shape (build_V np_norm 3 (Fin 1500) [(0, 0), (1000, 0), (4000, 0)]) 3 3 \<and>
   build_V np_norm 3 (Fin 1500) [(0, 0), (1000, 0), (4000, 0)] ! 0 ! 1 =
     build_V np_norm 3 (Fin 1500) [(0, 0), (1000, 0), (4000, 0)] ! 1 ! 0 \<and>
   build_V np_norm 3 (Fin 1500) [(0, 0), (1000, 0), (4000, 0)] ! 2 ! 2 = 0 \<and>
   (build_V np_norm 3 (Fin 1500) [(0, 0), (1000, 0), (4000, 0)] ! 0 ! 1 = 1 \<longleftrightarrow>
      (0::nat) \<noteq> 1 \<and>
      np_norm ([(0, 0), (1000, 0), (4000, 0)] ! min 0 1) ([(0, 0), (1000, 0), (4000, 0)] ! max 0 1)
        \<le> Fin 1500) \<and>
   (build_V np_norm 3 (Fin 1500) [(0, 0), (1000, 0), (4000, 0)] ! 1 ! 2 = 1 \<longleftrightarrow>
      (1::nat) \<noteq> 2 \<and>
      np_norm ([(0, 0), (1000, 0), (4000, 0)] ! min 1 2) ([(0, 0), (1000, 0), (4000, 0)] ! max 1 2)
        \<le> Fin 1500)"
proof -
  have h: "length ([(0, 0), (1000, 0), (4000, 0)] :: point list) = (3::nat)" by simp
  have n: "(0::nat) < 3" "(1::nat) < 3" "(2::nat) < 3" by simp_all
  from build_V_symmetric_zero_diagonal[OF h refl, where linalg_norm = np_norm
      and comm_link_range = "Fin 1500"] h n
  show ?thesis by blast
qed

text \<open>
  The computed distance is not the exact one. The sites \<open>(0, 0)\<close> and
  \<open>(1, 2 ^ (- 30))\<close> are at the Euclidean distance \<open>sqrt (1 + 2 ^ (- 60)) > 1\<close>; in
  doubles \<open>1 + 2 ^ (- 60)\<close> is 1, the computed distance is 1, and with range 1 the two
  sites are adjacent.
\<close>

theorem build_V_rounding_counterexample:
  "build_V np_norm 2 (Fin 1) [(0, 0), (1, 1 / 2 ^ 30)] ! 0 ! 1 = 1 \<and>
   \<not> euclidean_distance (0, 0) (1, 1 / 2 ^ 30) \<le> 1"
proof
  have "build_V np_norm 2 (Fin 1) [(0, 0), (1, 1 / 2 ^ 30)] = [[0, 1], [1, 0]]"
    by (simp add: build_V_def V_body_def zeros_def set_entry_def np_norm_rounds[simplified]
        upt_rec eval_nat_numeral)
  then show "build_V np_norm 2 (Fin 1) [(0, 0), (1, 1 / 2 ^ 30)] ! 0 ! 1 = 1" by simp
  show "\<not> euclidean_distance (0, 0) (1, 1 / 2 ^ 30) \<le> 1" using euclid_exceeds by simp
qed

section \<open>The rainfall zone matrix\<close>


lemma diag_loop_total:
  "shape L Z n \<Longrightarrow> \<forall>i \<in> set is. i < Z \<and> i < n \<Longrightarrow>
   \<exists>L'. for_each (\<lambda>i L. set_item L i i 1) is L = Inr L' \<and> shape L' Z n \<and>
        (\<forall>a b. L' ! a ! b = (if a = b \<and> a \<in> set is then 1 else L ! a ! b))"
proof (induction "is" arbitrary: L)
  case Nil
  then show ?case by simp
next
  case (Cons i "is")
  let ?L1 = "set_entry L i i 1"
  have i: "i < length L" "i < length (L ! i)" using Cons.prems by (simp_all add: shape_def)
  then have b: "set_item L i i 1 = Inr ?L1" by (simp add: set_item_def)
  have s1: "shape ?L1 Z n" using Cons.prems(1) by (rule shape_set_entry)
  have "\<forall>i \<in> set is. i < Z \<and> i < n" using Cons.prems(2) by simp
  from Cons.IH[OF s1 this] obtain L' where
    run: "for_each (\<lambda>i L. set_item L i i 1) is ?L1 = Inr L'" and sh: "shape L' Z n"
    and ent: "\<And>a b. L' ! a ! b = (if a = b \<and> a \<in> set is then 1 else ?L1 ! a ! b)"
    by blast
  have "L' ! a ! b = (if a = b \<and> a \<in> set (i # is) then 1 else L ! a ! b)" for a b
    unfolding ent nth_set_entry[OF i] by (simp; blast)
  with run sh b show ?case by simp
qed

lemma diag_loop_Inr:
  "for_each (\<lambda>i L. set_item L i i 1) is L = Inr L' \<Longrightarrow> shape L Z n \<Longrightarrow>
   \<forall>i \<in> set is. i < n"
proof (induction "is" arbitrary: L)
  case Nil
  then show ?case by simp
next
  case (Cons i "is")
  from Cons.prems(1) obtain L1 where b: "set_item L i i 1 = Inr L1"
    and run: "for_each (\<lambda>i L. set_item L i i 1) is L1 = Inr L'"
    by (auto split: sum.splits)
  from b have i: "i < length L" "i < length (L ! i)" and L1: "L1 = set_entry L i i 1"
    by (auto simp: set_item_def split: if_splits)
  have "i < n" using i Cons.prems(2) by (simp add: shape_def)
  moreover have "shape L1 Z n" unfolding L1 using Cons.prems(2) by (rule shape_set_entry)
  ultimately show ?case using Cons.IH[OF run] by simp
qed

lemma zone_loop_total:
  "shape L Z n \<Longrightarrow> \<forall>z \<in> set ra. z < Z \<Longrightarrow> k + length ra + Z \<le> n \<Longrightarrow>
   \<exists>L'. for_each (\<lambda>(i, zone_idx) L. set_item L zone_idx (i + Z) 1) (enumerate k ra) L = Inr L' \<and>
        shape L' Z n \<and>
        (\<forall>a b. L' ! a ! b =
           (if k + Z \<le> b \<and> b < k + Z + length ra \<and> a = ra ! (b - Z - k) then 1 else L ! a ! b))"
proof (induction ra arbitrary: L k)
  case Nil
  then show ?case by simp
next
  case (Cons z ra)
  let ?L1 = "set_entry L z (k + Z) 1"
  have i: "z < length L" "k + Z < length (L ! z)" using Cons.prems by (simp_all add: shape_def)
  then have b: "set_item L z (k + Z) 1 = Inr ?L1" by (simp add: set_item_def)
  have s1: "shape ?L1 Z n" using Cons.prems(1) by (rule shape_set_entry)
  have zs: "\<forall>z \<in> set ra. z < Z" using Cons.prems(2) by simp
  have "Suc k + length ra + Z \<le> n" using Cons.prems(3) by simp
  from Cons.IH[OF s1 zs this] obtain L' where
    run: "for_each (\<lambda>(i, zone_idx) L. set_item L zone_idx (i + Z) 1) (enumerate (Suc k) ra) ?L1 = Inr L'"
    and sh: "shape L' Z n"
    and ent: "\<And>a b. L' ! a ! b =
           (if Suc k + Z \<le> b \<and> b < Suc k + Z + length ra \<and> a = ra ! (b - Z - Suc k) then 1
            else ?L1 ! a ! b)"
    by blast
  have "L' ! a ! b =
           (if k + Z \<le> b \<and> b < k + Z + length (z # ra) \<and> a = (z # ra) ! (b - Z - k) then 1
            else L ! a ! b)" for a b
  proof (cases "b = k + Z")
    case True
    then show ?thesis unfolding ent nth_set_entry[OF i] by simp
  next
    case False
    have "k + Z \<le> b \<Longrightarrow> b - Z - k = Suc (b - Z - Suc k)" using False by arith
    then show ?thesis unfolding ent nth_set_entry[OF i] using False by auto
  qed
  with run sh b show ?case by simp
qed

lemma nonneg_member_le_sum_list:
  "\<forall>x \<in> set xs. (0::int) \<le> x \<Longrightarrow> x \<in> set xs \<Longrightarrow> x \<le> sum_list xs"
proof (induction xs)
  case Nil
  then show ?case by simp
next
  case (Cons y ys)
  have "0 \<le> sum_list ys" using Cons.prems(1) by (simp add: sum_list_nonneg)
  then show ?case using Cons by auto
qed

lemma build_L_Z_total:
  assumes "Z \<le> n" "length ra = n - Z" "\<forall>z \<in> set ra. z < Z"
  shows "\<exists>M. build_L_Z Z n ra = Inr M \<and> shape M Z n \<and>
           (\<forall>z j. z < Z \<longrightarrow> j < n \<longrightarrow> M ! z ! j = (if zone_of Z ra j = z then 1 else 0))"
proof -
  have "\<forall>i \<in> set [0..<Z]. i < Z \<and> i < n" using assms(1) by simp
  from diag_loop_total[OF shape_zeros this] obtain L where
    run1: "for_each (\<lambda>i L. set_item L i i 1) [0..<Z] (zeros Z n) = Inr L" and sh1: "shape L Z n"
    and ent1: "\<And>a b. L ! a ! b = (if a = b \<and> a \<in> set [0..<Z] then 1 else zeros Z n ! a ! b)"
    by blast
  have "0 + length ra + Z \<le> n" using assms(1,2) by simp
  from zone_loop_total[OF sh1 assms(3) this] obtain M where
    run2: "for_each (\<lambda>(i, zone_idx) L. set_item L zone_idx (i + Z) 1) (enumerate 0 ra) L = Inr M"
    and sh2: "shape M Z n"
    and ent2: "\<And>a b. M ! a ! b =
           (if 0 + Z \<le> b \<and> b < 0 + Z + length ra \<and> a = ra ! (b - Z - 0) then 1 else L ! a ! b)"
    by blast
  have "M ! z ! j = (if zone_of Z ra j = z then 1 else 0)" if "z < Z" "j < n" for z j
    unfolding ent2 ent1 using that assms(1,2) by (auto simp: zone_of_def nth_zeros)
  with run1 run2 sh2 show ?thesis by (auto simp: build_L_Z_def)
qed

lemma build_L_Z_Inr:
  assumes "build_L_Z Z n ra = Inr M"
  shows "Z \<le> n"
proof -
  from assms obtain L where "for_each (\<lambda>i L. set_item L i i 1) [0..<Z] (zeros Z n) = Inr L"
    by (auto simp: build_L_Z_def split: sum.splits)
  from diag_loop_Inr[OF this shape_zeros] have "\<forall>i < Z. i < n" by simp
  then show ?thesis by (metis less_irrefl not_le_imp_less)
qed

lemma zone_of_less:
  assumes "Z \<le> n" "length ra = n - Z" "\<forall>z \<in> set ra. z < Z" "j < n"
  shows "zone_of Z ra j < Z"
  using assms by (auto simp: zone_of_def)


text \<open>
  C8. Let \<open>remaining_assignments\<close> be what \<open>randint\<close> returns: \<open>num_locations -
  num_rain_zones\<close> zone indices below \<open>num_rain_zones\<close>. The construction of \<open>L_Z\<close>
  returns a matrix whenever \<open>num_rain_zones \<le> num_locations\<close> (and only then: otherwise
  the seeding loop leaves the array). In the matrix it returns, site \<open>j < num_rain_zones\<close>
  is in zone \<open>j\<close>, every site (also \<open>j \<ge> num_rain_zones\<close>) is in exactly one zone, with
  index below \<open>num_rain_zones\<close>, every entry is 0 or 1, and every zone row sums to at
  least 1.
\<close>

theorem build_L_Z_zone_assignment:
  assumes "length remaining_assignments = num_locations - num_rain_zones"
    and "\<forall>zone_idx \<in> set remaining_assignments. zone_idx < num_rain_zones"
  shows "(num_rain_zones \<le> num_locations \<longrightarrow>
           (\<exists>L_Z. build_L_Z num_rain_zones num_locations remaining_assignments = Inr L_Z)) \<and>
         (\<forall>L_Z. build_L_Z num_rain_zones num_locations remaining_assignments = Inr L_Z \<longrightarrow>
            num_rain_zones \<le> num_locations \<and>
            shape L_Z num_rain_zones num_locations \<and>
            (\<forall>j < num_rain_zones. L_Z ! j ! j = 1) \<and>
            (\<forall>j < num_locations. \<exists>!z. z < num_rain_zones \<and> L_Z ! z ! j = 1) \<and>
            (\<forall>z < num_rain_zones. \<forall>j < num_locations. L_Z ! z ! j = 0 \<or> L_Z ! z ! j = 1) \<and>
            (\<forall>z < num_rain_zones. 1 \<le> sum_list (L_Z ! z)))"
proof -
  have tot: "num_rain_zones \<le> num_locations \<longrightarrow>
           (\<exists>L_Z. build_L_Z num_rain_zones num_locations remaining_assignments = Inr L_Z)"
    using build_L_Z_total[OF _ assms] by blast
  have "num_rain_zones \<le> num_locations \<and>
        shape L_Z num_rain_zones num_locations \<and>
        (\<forall>j < num_rain_zones. L_Z ! j ! j = 1) \<and>
        (\<forall>j < num_locations. \<exists>!z. z < num_rain_zones \<and> L_Z ! z ! j = 1) \<and>
        (\<forall>z < num_rain_zones. \<forall>j < num_locations. L_Z ! z ! j = 0 \<or> L_Z ! z ! j = 1) \<and>
        (\<forall>z < num_rain_zones. 1 \<le> sum_list (L_Z ! z))"
    if run: "build_L_Z num_rain_zones num_locations remaining_assignments = Inr L_Z" for L_Z
  proof -
    from run have le: "num_rain_zones \<le> num_locations" by (rule build_L_Z_Inr)
    from build_L_Z_total[OF le assms] run
    have sh: "shape L_Z num_rain_zones num_locations"
      and ent: "\<And>z j. z < num_rain_zones \<Longrightarrow> j < num_locations \<Longrightarrow>
                 L_Z ! z ! j = (if zone_of num_rain_zones remaining_assignments j = z then 1 else 0)"
      by auto
    have diag: "\<forall>j < num_rain_zones. L_Z ! j ! j = 1"
      using le by (simp add: ent zone_of_def)
    have uniq: "\<forall>j < num_locations. \<exists>!z. z < num_rain_zones \<and> L_Z ! z ! j = 1"
    proof (intro allI impI)
      fix j assume j: "j < num_locations"
      have zl: "zone_of num_rain_zones remaining_assignments j < num_rain_zones"
        using le assms j by (rule zone_of_less)
      show "\<exists>!z. z < num_rain_zones \<and> L_Z ! z ! j = 1"
      proof (rule ex1I[of _ "zone_of num_rain_zones remaining_assignments j"])
        show "zone_of num_rain_zones remaining_assignments j < num_rain_zones \<and>
              L_Z ! zone_of num_rain_zones remaining_assignments j ! j = 1"
          using zl j by (simp add: ent)
      next
        fix z assume "z < num_rain_zones \<and> L_Z ! z ! j = 1"
        then show "z = zone_of num_rain_zones remaining_assignments j"
          using j by (auto simp: ent split: if_splits)
      qed
    qed
    have bin: "\<forall>z < num_rain_zones. \<forall>j < num_locations. L_Z ! z ! j = 0 \<or> L_Z ! z ! j = 1"
      by (simp add: ent)
    have sum: "\<forall>z < num_rain_zones. 1 \<le> sum_list (L_Z ! z)"
    proof (intro allI impI)
      fix z assume z: "z < num_rain_zones"
      have len: "length (L_Z ! z) = num_locations" using sh z by (rule shape_nth)
      have "\<forall>x \<in> set (L_Z ! z). 0 \<le> x"
        using bin z len by (fastforce simp: in_set_conv_nth)
      moreover have "L_Z ! z ! z = 1" using diag z by simp
      then have "1 \<in> set (L_Z ! z)" using z le len by (metis less_le_trans nth_mem)
      ultimately show "1 \<le> sum_list (L_Z ! z)" by (rule nonneg_member_le_sum_list)
    qed
    from le sh diag uniq bin sum show ?thesis by (intro conjI)
  qed
  with tot show ?thesis by blast
qed

lemma build_L_Z_example_value:
  "build_L_Z 2 4 [1, 0] = Inr [[1, 0, 0, 1], [0, 1, 1, 0]]"
  by (simp add: build_L_Z_def zeros_def set_item_def set_entry_def enumerate_eq_zip upt_rec
      eval_nat_numeral)

lemma build_L_Z_too_many_zones: "build_L_Z 2 1 [] = Inl IndexError"
  by (simp add: build_L_Z_def zeros_def set_item_def set_entry_def upt_rec eval_nat_numeral)

theorem build_L_Z_zone_assignment_witness:
  "length [1, 0::nat] = 4 - 2 \<and> list_all (\<lambda>zone_idx. zone_idx < 2) [1, 0::nat] \<and>
   build_L_Z 2 4 [1, 0] = Inr [[1, 0, 0, 1], [0, 1, 1, 0]] \<and>
   [[1, 0, 0, 1], [0, 1, 1, 0::int]] ! 0 ! 0 = 1 \<and>
   [[1, 0, 0, 1], [0, 1, 1, 0::int]] ! 1 ! 1 = 1 \<and>
   (\<exists>!z. z < 2 \<and> [[1, 0, 0, 1], [0, 1, 1, 0::int]] ! z ! 2 = 1) \<and>
   (\<exists>!z. z < 2 \<and> [[1, 0, 0, 1], [0, 1, 1, 0::int]] ! z ! 3 = 1) \<and>
   1 \<le> sum_list ([[1, 0, 0, 1], [0, 1, 1, 0::int]] ! 0) \<and>
   1 \<le> sum_list ([[1, 0, 0, 1], [0, 1, 1, 0::int]] ! 1)"
proof -
  have h1: "length [1, 0::nat] = 4 - 2" by simp
  have h2: "\<forall>zone_idx \<in> set [1, 0::nat]. zone_idx < 2" by simp
  have v: "build_L_Z 2 4 [1, 0] = Inr [[1, 0, 0, 1], [0, 1, 1, 0]]"
    by (rule build_L_Z_example_value)
  have n: "(0::nat) < 2" "(1::nat) < 2" "(2::nat) < 4" "(3::nat) < 4" by simp_all
  from build_L_Z_zone_assignment[OF h1 h2] v
  have "(\<forall>j < 2. [[1, 0, 0, 1], [0, 1, 1, 0::int]] ! j ! j = 1) \<and>
        (\<forall>j < 4. \<exists>!z. z < 2 \<and> [[1, 0, 0, 1], [0, 1, 1, 0::int]] ! z ! j = 1) \<and>
        (\<forall>z < 2. 1 \<le> sum_list ([[1, 0, 0, 1], [0, 1, 1, 0::int]] ! z))"
    by blast
  with n h1 h2 v show ?thesis unfolding list_all_iff by blast
qed

section \<open>The constraint system: what a feasible assignment satisfies\<close>


lemma aff_value_lpSum: "aff_value \<sigma> (lpSum ts) = sum_list (map (\<lambda>t. fst t * \<sigma> (snd t)) ts)"
  by (simp add: aff_value_def lpSum_def)

lemma aff_value_add: "aff_value \<sigma> (aff_add a b) = aff_value \<sigma> a + aff_value \<sigma> b"
  by (simp add: aff_value_def aff_add_def)

lemma aff_value_const: "aff_value \<sigma> (aff_const c) = c"
  by (simp add: aff_value_def aff_const_def)

lemma aff_value_var: "aff_value \<sigma> (aff_var v) = \<sigma> v"
  by (simp add: aff_value_def aff_var_def)

lemmas aff_value_simps = aff_value_lpSum aff_value_add aff_value_const aff_value_var

lemma holds_con:
  "holds \<sigma> (con l LE r) \<longleftrightarrow> aff_value \<sigma> l \<le> aff_value \<sigma> r"
  "holds \<sigma> (con l EQ r) \<longleftrightarrow> aff_value \<sigma> l = aff_value \<sigma> r"
  "holds \<sigma> (con l GE r) \<longleftrightarrow> aff_value \<sigma> r \<le> aff_value \<sigma> l"
  by (simp_all add: holds_def con_def)

lemma links_product:
  "links n = filter (\<lambda>(j, k). j < k) (List.product [0..<n] [0..<n])"
  by (simp add: links_def locations_def product_concat_map filter_concat filter_map comp_def)

lemma distinct_links: "distinct (links n)"
  unfolding links_product by (simp add: distinct_product)

lemma set_links: "set (links n) = {(j, k). j < k \<and> k < n}"
  unfolding links_product by auto

lemma sum_list_locations:
  "sum_list (map f (locations n)) = (\<Sum>j < n. f j)"
  by (simp add: locations_def interv_sum_list_conv_sum_set_nat atLeast0LessThan)

lemma sum_list_links:
  "sum_list (map f (links n)) = (\<Sum>l \<in> {(j, k). j < k \<and> k < n}. f l)"
  using sum_list_distinct_conv_sum_set[OF distinct_links, of f n] by (simp add: set_links)

lemma sum_list_below:
  "j < n \<Longrightarrow> sum_list (map f (filter (\<lambda>k. k < j) (locations n))) = (\<Sum>k < j. f k)"
proof -
  assume j: "j < n"
  have "distinct (filter (\<lambda>k. k < j) (locations n))" by (simp add: locations_def)
  from sum_list_distinct_conv_sum_set[OF this, of f]
  have "sum_list (map f (filter (\<lambda>k. k < j) (locations n))) = sum f {k. k < n \<and> k < j}"
    by (simp add: locations_def)
  moreover have "{k. k < n \<and> k < j} = {..<j}" using j by auto
  ultimately show ?thesis by simp
qed

lemma sum_list_above:
  "sum_list (map f (filter (\<lambda>k. j < k) (locations n))) = (\<Sum>k \<in> {j<..<n}. f k)"
proof -
  have "distinct (filter (\<lambda>k. j < k) (locations n))" by (simp add: locations_def)
  from sum_list_distinct_conv_sum_set[OF this, of f]
  have "sum_list (map f (filter (\<lambda>k. j < k) (locations n))) = sum f {k. k < n \<and> j < k}"
    by (simp add: locations_def)
  moreover have "{k. k < n \<and> j < k} = {j<..<n}" by auto
  ultimately show ?thesis by simp
qed

lemma holds_tree:
  "holds \<sigma> (snd (tree_constraint n)) \<longleftrightarrow>
     (\<Sum>l \<in> {(j, k). j < k \<and> k < n}. \<sigma> (Link l)) = (\<Sum>j < n. \<sigma> (Turbine j)) - 1"
  by (simp add: tree_constraint_def turbine_sum_def holds_con aff_value_simps comp_def
      sum_list_locations sum_list_links)

lemma holds_water:
  "holds \<sigma> (snd (water_constraint n S i)) \<longleftrightarrow> 1 \<le> (\<Sum>j < n. S ! i ! j * \<sigma> (Turbine j))"
  by (simp add: water_constraint_def holds_con aff_value_simps comp_def sum_list_locations)

lemma holds_zone:
  "holds \<sigma> (snd (zone_constraint n L z)) \<longleftrightarrow> 1 \<le> (\<Sum>j < n. L ! z ! j * \<sigma> (Turbine j))"
  by (simp add: zone_constraint_def holds_con aff_value_simps comp_def sum_list_locations)

lemma holds_link:
  "list_all (\<lambda>nc. holds \<sigma> (snd nc)) (link_constraints V (j, k)) \<longleftrightarrow>
     2 * \<sigma> (Link (j, k)) \<le> \<sigma> (Turbine j) + \<sigma> (Turbine k) \<and> \<sigma> (Link (j, k)) \<le> V ! j ! k"
  by (simp add: link_constraints_def holds_con aff_value_simps)

lemma holds_degree:
  "j < n \<Longrightarrow> holds \<sigma> (snd (degree_constraint n j)) \<longleftrightarrow>
     \<sigma> (Turbine j) \<le> (\<Sum>k < j. \<sigma> (Link (k, j))) + (\<Sum>k \<in> {j<..<n}. \<sigma> (Link (j, k)))"
  by (simp add: degree_constraint_def holds_con aff_value_simps comp_def sum_list_below
      sum_list_above)

lemma feasible_assemble_iff:
  "feasible (assemble n W Z S L V) \<sigma> \<longleftrightarrow>
     (\<forall>j < n. is_binary \<sigma> (Turbine j)) \<and>
     (\<forall>j k. j < k \<and> k < n \<longrightarrow> is_binary \<sigma> (Link (j, k))) \<and>
     (\<Sum>l \<in> {(j, k). j < k \<and> k < n}. \<sigma> (Link l)) = (\<Sum>j < n. \<sigma> (Turbine j)) - 1 \<and>
     (\<forall>i < W. 1 \<le> (\<Sum>j < n. S ! i ! j * \<sigma> (Turbine j))) \<and>
     (\<forall>z < Z. 1 \<le> (\<Sum>j < n. L ! z ! j * \<sigma> (Turbine j))) \<and>
     (\<forall>j k. j < k \<and> k < n \<longrightarrow>
        2 * \<sigma> (Link (j, k)) \<le> \<sigma> (Turbine j) + \<sigma> (Turbine k) \<and> \<sigma> (Link (j, k)) \<le> V ! j ! k) \<and>
     (\<forall>j < n. \<sigma> (Turbine j) \<le> (\<Sum>k < j. \<sigma> (Link (k, j))) + (\<Sum>k \<in> {j<..<n}. \<sigma> (Link (j, k))))"
proof -
  have vars: "list_all (is_binary \<sigma>) (variables (assemble n W Z S L V)) \<longleftrightarrow>
     (\<forall>j < n. is_binary \<sigma> (Turbine j)) \<and> (\<forall>j k. j < k \<and> k < n \<longrightarrow> is_binary \<sigma> (Link (j, k)))"
    by (auto simp: assemble_def list_all_iff locations_def set_links)
  have water: "list_all (\<lambda>nc. holds \<sigma> (snd nc)) (map (water_constraint n S) [0..<W]) \<longleftrightarrow>
     (\<forall>i < W. 1 \<le> (\<Sum>j < n. S ! i ! j * \<sigma> (Turbine j)))"
    by (auto simp: list_all_iff holds_water)
  have zone: "list_all (\<lambda>nc. holds \<sigma> (snd nc)) (map (zone_constraint n L) [0..<Z]) \<longleftrightarrow>
     (\<forall>z < Z. 1 \<le> (\<Sum>j < n. L ! z ! j * \<sigma> (Turbine j)))"
    by (auto simp: list_all_iff holds_zone)
  have link: "list_all (\<lambda>nc. holds \<sigma> (snd nc)) (concat (map (link_constraints V) (links n))) \<longleftrightarrow>
     (\<forall>j k. j < k \<and> k < n \<longrightarrow>
        2 * \<sigma> (Link (j, k)) \<le> \<sigma> (Turbine j) + \<sigma> (Turbine k) \<and> \<sigma> (Link (j, k)) \<le> V ! j ! k)"
  proof -
    have "list_all (\<lambda>nc. holds \<sigma> (snd nc)) (concat (map (link_constraints V) (links n))) \<longleftrightarrow>
          (\<forall>l \<in> set (links n). list_all (\<lambda>nc. holds \<sigma> (snd nc)) (link_constraints V l))"
      by (auto simp: list_all_iff)
    also have "\<dots> \<longleftrightarrow> (\<forall>j k. j < k \<and> k < n \<longrightarrow>
        list_all (\<lambda>nc. holds \<sigma> (snd nc)) (link_constraints V (j, k)))"
      by (auto simp: set_links)
    finally show ?thesis by (simp only: holds_link)
  qed
  have degree: "list_all (\<lambda>nc. holds \<sigma> (snd nc)) (map (degree_constraint n) (locations n)) \<longleftrightarrow>
     (\<forall>j < n. \<sigma> (Turbine j) \<le> (\<Sum>k < j. \<sigma> (Link (k, j))) + (\<Sum>k \<in> {j<..<n}. \<sigma> (Link (j, k))))"
    by (auto simp: list_all_iff locations_def holds_degree[unfolded locations_def])
  have "feasible (assemble n W Z S L V) \<sigma> \<longleftrightarrow>
     list_all (is_binary \<sigma>) (variables (assemble n W Z S L V)) \<and>
     holds \<sigma> (snd (tree_constraint n)) \<and>
     list_all (\<lambda>nc. holds \<sigma> (snd nc)) (map (water_constraint n S) [0..<W]) \<and>
     list_all (\<lambda>nc. holds \<sigma> (snd nc)) (map (zone_constraint n L) [0..<Z]) \<and>
     list_all (\<lambda>nc. holds \<sigma> (snd nc)) (concat (map (link_constraints V) (links n))) \<and>
     list_all (\<lambda>nc. holds \<sigma> (snd nc)) (map (degree_constraint n) (locations n))"
    by (simp add: feasible_def assemble_def)
  then show ?thesis
    unfolding vars water zone link degree holds_tree by simp
qed


lemma binary_cases: "is_binary \<sigma> v \<Longrightarrow> \<sigma> v \<noteq> 0 \<Longrightarrow> \<sigma> v = 1"
  by (auto simp: is_binary_def)

lemma feasible_active_link:
  assumes "feasible (assemble n W Z S L V) \<sigma>"
  shows "\<exists>j k. j < k \<and> k < n \<and> \<sigma> (Link (j, k)) = 1 \<and> \<sigma> (Turbine j) = 1 \<and>
               \<sigma> (Turbine k) = 1 \<and> 1 \<le> V ! j ! k"
proof -
  note f = assms[unfolded feasible_assemble_iff]
  have xb: "\<And>j. j < n \<Longrightarrow> is_binary \<sigma> (Turbine j)" using f by blast
  have yb: "\<And>j k. j < k \<Longrightarrow> k < n \<Longrightarrow> is_binary \<sigma> (Link (j, k))" using f by blast
  have tree: "(\<Sum>l \<in> {(j, k). j < k \<and> k < n}. \<sigma> (Link l)) = (\<Sum>j < n. \<sigma> (Turbine j)) - 1"
    using f by blast
  have ynn: "0 \<le> \<sigma> (Link (a, b))" if "a < b" "b < n" for a b
    using yb[OF that] by (auto simp: is_binary_def)
  have "0 \<le> (\<Sum>l \<in> {(j, k). j < k \<and> k < n}. \<sigma> (Link l))"
    by (rule sum_nonneg) (use ynn in auto)
  with tree have pos: "1 \<le> (\<Sum>j < n. \<sigma> (Turbine j))" by simp
  have "\<exists>j < n. \<sigma> (Turbine j) \<noteq> 0"
  proof (rule ccontr)
    assume "\<not> (\<exists>j < n. \<sigma> (Turbine j) \<noteq> 0)"
    then have "(\<Sum>j < n. \<sigma> (Turbine j)) = 0" by simp
    with pos show False by simp
  qed
  then obtain j where j: "j < n" and xj: "\<sigma> (Turbine j) = 1"
    using xb binary_cases by blast
  have deg: "1 \<le> (\<Sum>k < j. \<sigma> (Link (k, j))) + (\<Sum>k \<in> {j<..<n}. \<sigma> (Link (j, k)))"
    using f j xj by (metis (no_types, lifting))
  have "(\<exists>k < j. \<sigma> (Link (k, j)) \<noteq> 0) \<or> (\<exists>k \<in> {j<..<n}. \<sigma> (Link (j, k)) \<noteq> 0)"
  proof (rule ccontr)
    assume "\<not> ((\<exists>k < j. \<sigma> (Link (k, j)) \<noteq> 0) \<or> (\<exists>k \<in> {j<..<n}. \<sigma> (Link (j, k)) \<noteq> 0))"
    then have "(\<Sum>k < j. \<sigma> (Link (k, j))) = 0" "(\<Sum>k \<in> {j<..<n}. \<sigma> (Link (j, k))) = 0"
      by simp_all
    with deg show False by simp
  qed
  then obtain a b where ab: "a < b" "b < n" and y0: "\<sigma> (Link (a, b)) \<noteq> 0"
    using j by (auto intro: less_trans)
  have y: "\<sigma> (Link (a, b)) = 1" using yb[OF ab] y0 by (rule binary_cases)
  have act: "2 * \<sigma> (Link (a, b)) \<le> \<sigma> (Turbine a) + \<sigma> (Turbine b)"
    and los: "\<sigma> (Link (a, b)) \<le> V ! a ! b"
    using f ab by blast+
  have "is_binary \<sigma> (Turbine a)" "is_binary \<sigma> (Turbine b)" using xb ab by simp_all
  with act y have "\<sigma> (Turbine a) = 1" "\<sigma> (Turbine b) = 1" by (auto simp: is_binary_def)
  with ab y los show ?thesis by auto
qed

lemma feasible_two_sites:
  assumes "feasible (assemble n W Z S L V) \<sigma>"
  shows "2 \<le> (\<Sum>j < n. \<sigma> (Turbine j))"
proof -
  from feasible_active_link[OF assms] obtain a b where
    ab: "a < b" "b < n" and x: "\<sigma> (Turbine a) = 1" "\<sigma> (Turbine b) = 1" by blast
  have nn: "\<And>j. j < n \<Longrightarrow> 0 \<le> \<sigma> (Turbine j)"
    using assms[unfolded feasible_assemble_iff] by (auto simp: is_binary_def)
  have "(\<Sum>j \<in> {a, b}. \<sigma> (Turbine j)) \<le> (\<Sum>j \<in> {..<n}. \<sigma> (Turbine j))"
    by (rule sum_mono2) (use ab nn in auto)
  moreover have "(\<Sum>j \<in> {a, b}. \<sigma> (Turbine j)) = 2" using ab x by simp
  ultimately show ?thesis by simp
qed

lemma solver_answer_Optimal_feasible: "solver_answer p Optimal \<sigma> \<Longrightarrow> feasible p \<sigma>"
  by (simp add: solver_answer_def)

lemma feasible_link_endpoints:
  assumes "feasible (assemble n W Z S L V) \<sigma>" "j < k" "k < n" "\<sigma> (Link (j, k)) = 1"
  shows "\<sigma> (Turbine j) = 1 \<and> \<sigma> (Turbine k) = 1 \<and> 1 \<le> V ! j ! k"
proof -
  note f = assms(1)[unfolded feasible_assemble_iff]
  have act: "2 * \<sigma> (Link (j, k)) \<le> \<sigma> (Turbine j) + \<sigma> (Turbine k)"
    and los: "\<sigma> (Link (j, k)) \<le> V ! j ! k"
    using f assms(2,3) by blast+
  have "is_binary \<sigma> (Turbine j)" "is_binary \<sigma> (Turbine k)" using f assms(2,3) by simp_all
  with act los assms(4) show ?thesis by (auto simp: is_binary_def)
qed

text \<open>The deployment of two sites joined by their link, used as a concrete instance below.\<close>

lemma two_site_instance_feasible:
  "feasible (assemble 2 2 1 [[1, 0], [0, 1]] [[1, 1]] [[0, 1], [1, 0]])
     (\<lambda>v. if v \<in> {Turbine 0, Turbine 1, Link (0, 1)} then 1 else 0)"
  by code_simp

section \<open>Properties of feasible assignments and of the report\<close>


lemma aff_value_objective:
  "aff_value \<sigma> (objective (assemble n W Z S L V)) = (\<Sum>j < n. \<sigma> (Turbine j))"
  by (simp add: assemble_def turbine_sum_def aff_value_simps comp_def sum_list_locations)

lemma two_site_instance_optimal:
  "solver_answer (assemble 2 2 1 [[1, 0], [0, 1]] [[1, 1]] [[0, 1], [1, 0]]) Optimal
     (\<lambda>v. if v \<in> {Turbine 0, Turbine 1, Link (0, 1)} then 1 else 0)"
proof -
  let ?p = "assemble 2 2 1 [[1, 0], [0, 1]] [[1, 1]] [[0, 1], [1, 0]]"
  let ?s = "\<lambda>v. if v \<in> {Turbine 0, Turbine 1, Link (0, 1)} then 1 else (0::int)"
  have "aff_value ?s (objective ?p) = 2"
    by (simp add: aff_value_objective lessThan_Suc eval_nat_numeral)
  moreover have "2 \<le> aff_value \<sigma>' (objective ?p)" if "feasible ?p \<sigma>'" for \<sigma>'
    unfolding aff_value_objective using that by (rule feasible_two_sites)
  ultimately show ?thesis
    using two_site_instance_feasible by (simp add: solver_answer_def)
qed

text \<open>
  C2. Every assignment that is feasible for the assembled problem (binary values, and
  all constraints: tree size, coverage, link activation, line of sight, degree
  connectivity) selects at least two sites.
\<close>

theorem selected_sites_at_least_two:
  assumes "feasible (assemble num_locations num_water_areas num_rain_zones S_W L_Z V) \<sigma>"
  shows "2 \<le> (\<Sum>j < num_locations. \<sigma> (Turbine j))"
  using assms by (rule feasible_two_sites)

theorem selected_sites_at_least_two_witness:
  "feasible (assemble 2 2 1 [[1, 0], [0, 1]] [[1, 1]] [[0, 1], [1, 0]])
     (\<lambda>v. if v \<in> {Turbine 0, Turbine 1, Link (0, 1)} then 1 else 0) \<and>
   2 \<le> (\<Sum>j < 2. (\<lambda>v. if v \<in> {Turbine 0, Turbine 1, Link (0, 1)} then 1 else (0::int)) (Turbine j))"
  by (rule conjI[OF two_site_instance_feasible
        selected_sites_at_least_two[OF two_site_instance_feasible]])

text \<open>
  C5. Every feasible assignment of the assembled problem, and so every assignment the
  solver returns with status \<open>Optimal\<close>, has exactly one active link less than selected
  sites: the sum of the \<open>y\<close> over all links \<open>(j, k)\<close>, \<open>j < k\<close>, is the sum of the \<open>x\<close>
  minus 1.
\<close>

theorem tree_size_equation:
  "(feasible (assemble num_locations num_water_areas num_rain_zones S_W L_Z V) \<sigma> \<longrightarrow>
      (\<Sum>l \<in> {(j, k). j < k \<and> k < num_locations}. \<sigma> (Link l)) =
      (\<Sum>j < num_locations. \<sigma> (Turbine j)) - 1) \<and>
   (solver_answer (assemble num_locations num_water_areas num_rain_zones S_W L_Z V) Optimal \<sigma> \<longrightarrow>
      (\<Sum>l \<in> {(j, k). j < k \<and> k < num_locations}. \<sigma> (Link l)) =
      (\<Sum>j < num_locations. \<sigma> (Turbine j)) - 1)"
proof -
  have "(\<Sum>l \<in> {(j, k). j < k \<and> k < num_locations}. \<sigma> (Link l)) =
        (\<Sum>j < num_locations. \<sigma> (Turbine j)) - 1"
    if "feasible (assemble num_locations num_water_areas num_rain_zones S_W L_Z V) \<sigma>"
    using that[unfolded feasible_assemble_iff] by blast
  then show ?thesis using solver_answer_Optimal_feasible by blast
qed

theorem tree_size_equation_witness:
  "feasible (assemble 2 2 1 [[1, 0], [0, 1]] [[1, 1]] [[0, 1], [1, 0]])
     (\<lambda>v. if v \<in> {Turbine 0, Turbine 1, Link (0, 1)} then 1 else 0) \<and>
   solver_answer (assemble 2 2 1 [[1, 0], [0, 1]] [[1, 1]] [[0, 1], [1, 0]]) Optimal
     (\<lambda>v. if v \<in> {Turbine 0, Turbine 1, Link (0, 1)} then 1 else 0) \<and>
   (\<Sum>l \<in> {(j, k). j < k \<and> k < 2}.
      (\<lambda>v. if v \<in> {Turbine 0, Turbine 1, Link (0, 1)} then 1 else (0::int)) (Link l)) =
   (\<Sum>j < 2. (\<lambda>v. if v \<in> {Turbine 0, Turbine 1, Link (0, 1)} then 1 else (0::int)) (Turbine j)) - 1"
  using tree_size_equation[of 2 2 1 "[[1, 0], [0, 1]]" "[[1, 1]]" "[[0, 1], [1, 0]]"
      "\<lambda>v. if v \<in> {Turbine 0, Turbine 1, Link (0, 1)} then 1 else 0"]
    two_site_instance_feasible two_site_instance_optimal
  by blast

text \<open>
  C6. With \<open>V\<close> the connectivity matrix built from the site coordinates: in every feasible
  assignment of the assembled problem, and so in every assignment the solver returns
  with status \<open>Optimal\<close>, a link \<open>(j, k)\<close> with \<open>y = 1\<close> has both endpoints selected and
  \<open>V[j, k] = 1\<close>.
\<close>

theorem active_link_endpoints:
  assumes "length coords_j = num_locations"
    and "V = build_V linalg_norm num_locations comm_link_range coords_j"
    and "j < k" and "k < num_locations"
    and "\<sigma> (Link (j, k)) = 1"
  shows "(feasible (assemble num_locations num_water_areas num_rain_zones S_W L_Z V) \<sigma> \<longrightarrow>
            \<sigma> (Turbine j) = 1 \<and> \<sigma> (Turbine k) = 1 \<and> V ! j ! k = 1) \<and>
         (solver_answer (assemble num_locations num_water_areas num_rain_zones S_W L_Z V) Optimal \<sigma> \<longrightarrow>
            \<sigma> (Turbine j) = 1 \<and> \<sigma> (Turbine k) = 1 \<and> V ! j ! k = 1)"
proof -
  have "\<sigma> (Turbine j) = 1 \<and> \<sigma> (Turbine k) = 1 \<and> V ! j ! k = 1"
    if f: "feasible (assemble num_locations num_water_areas num_rain_zones S_W L_Z V) \<sigma>"
  proof -
    from feasible_link_endpoints[OF f assms(3,4,5)]
    have x: "\<sigma> (Turbine j) = 1" "\<sigma> (Turbine k) = 1" and v: "1 \<le> V ! j ! k" by simp_all
    have "j < num_locations" using assms(3,4) by simp
    then have "V ! j ! k = 0 \<or> V ! j ! k = 1"
      unfolding assms(2) using assms(4) by (simp add: nth_build_V)
    with v x show ?thesis by auto
  qed
  then show ?thesis using solver_answer_Optimal_feasible by blast
qed

theorem active_link_endpoints_witness:
  "length ([(0, 0), (1000, 0)] :: point list) = (2::nat) \<and> (0::nat) < 1 \<and> (1::nat) < 2 \<and>
   (\<lambda>v. if v \<in> {Turbine 0, Turbine 1, Link (0, 1)} then 1 else (0::int)) (Link (0, 1)) = 1 \<and>
   feasible (assemble 2 2 1 [[1, 0], [0, 1]] [[1, 1]] (build_V np_norm 2 (Fin 1500) [(0, 0), (1000, 0)]))
     (\<lambda>v. if v \<in> {Turbine 0, Turbine 1, Link (0, 1)} then 1 else 0) \<and>
   (\<lambda>v. if v \<in> {Turbine 0, Turbine 1, Link (0, 1)} then 1 else (0::int)) (Turbine 0) = 1 \<and>
   (\<lambda>v. if v \<in> {Turbine 0, Turbine 1, Link (0, 1)} then 1 else (0::int)) (Turbine 1) = 1 \<and>
   build_V np_norm 2 (Fin 1500) [(0, 0), (1000, 0)] ! 0 ! 1 = 1"
proof -
  have v: "build_V np_norm 2 (Fin 1500) [(0, 0), (1000, 0)] = [[0, 1], [1, 0]]"
    by (simp add: build_V_def V_body_def zeros_def set_entry_def np_norm_values less_float64_def upt_rec eval_nat_numeral)
  have h1: "length ([(0, 0), (1000, 0)] :: point list) = (2::nat)" by simp
  have h3: "(0::nat) < 1" by simp
  have h4: "(1::nat) < 2" by simp
  have h5: "(\<lambda>v. if v \<in> {Turbine 0, Turbine 1, Link (0, 1)} then 1 else (0::int)) (Link (0, 1)) = 1"
    by simp
  have f: "feasible (assemble 2 2 1 [[1, 0], [0, 1]] [[1, 1]] (build_V np_norm 2 (Fin 1500) [(0, 0), (1000, 0)]))
     (\<lambda>v. if v \<in> {Turbine 0, Turbine 1, Link (0, 1)} then 1 else 0)"
    unfolding v by (rule two_site_instance_feasible)
  note inst = active_link_endpoints[where \<sigma> = "\<lambda>v. if v \<in> {Turbine 0, Turbine 1, Link (0, 1)} then 1 else 0"
      and j = 0 and k = 1 and num_locations = 2 and coords_j = "[(0, 0), (1000, 0)]"
      and comm_link_range = "Fin 1500" and V = "build_V np_norm 2 (Fin 1500) [(0, 0), (1000, 0)]"
      and num_water_areas = 2 and num_rain_zones = 1 and S_W = "[[1, 0], [0, 1]]"
      and L_Z = "[[1, 1]]"]
  from inst[OF h1 refl h3 h4 h5] f h1 h3 h4 h5
  show ?thesis by blast
qed

lemma length_selected:
  "length (filter (\<lambda>j. \<sigma> (Turbine j) = 1) (locations n)) = card {j. j < n \<and> \<sigma> (Turbine j) = 1}"
proof -
  have "distinct (filter (\<lambda>j. \<sigma> (Turbine j) = 1) (locations n))" by (simp add: locations_def)
  from distinct_card[OF this] show ?thesis by (simp add: locations_def)
qed

text \<open>
  C10. On status \<open>Optimal\<close> the interpreter returns a report whose selected sites are the
  sites with \<open>x = 1\<close>, whose capital cost is their number times \<open>C_capex_per_turbine\<close>,
  whose annual operating cost is their number times \<open>C_opex_per_turbine\<close>, and whose
  total cost is the capital cost plus \<open>T\<close> times the annual operating cost, in unbounded
  integers.
\<close>

theorem interpret_result_costs:
  "\<exists>rep. interpret_result num_locations C_capex_per_turbine C_opex_per_turbine T Optimal \<sigma> = Some rep \<and>
     set (selected_sites rep) = {j. j < num_locations \<and> \<sigma> (Turbine j) = 1} \<and>
     final_capex rep = int (card {j. j < num_locations \<and> \<sigma> (Turbine j) = 1}) * C_capex_per_turbine \<and>
     final_opex_annual rep = int (card {j. j < num_locations \<and> \<sigma> (Turbine j) = 1}) * C_opex_per_turbine \<and>
     final_total_cost rep = final_capex rep + T * final_opex_annual rep"
  by (auto simp: interpret_result_def Let_def length_selected) (auto simp: locations_def)

lemma interpret_result_example_value:
  "interpret_result 2 800000 1200000 10 Optimal
     (\<lambda>v. if v \<in> {Turbine 0, Turbine 1, Link (0, 1)} then 1 else 0) =
   Some \<lparr>selected_sites = [0, 1], final_capex = 1600000, final_opex_annual = 2400000,
         final_total_cost = 25600000, active_links = [(0, 1)]\<rparr>"
  by code_simp

theorem interpret_result_costs_witness:
  "\<exists>rep. interpret_result 2 800000 1200000 10 Optimal
            (\<lambda>v. if v \<in> {Turbine 0, Turbine 1, Link (0, 1)} then 1 else 0) = Some rep \<and>
     set (selected_sites rep) =
       {j. j < 2 \<and> (\<lambda>v. if v \<in> {Turbine 0, Turbine 1, Link (0, 1)} then 1 else (0::int)) (Turbine j) = 1} \<and>
     final_capex rep =
       int (card {j. j < 2 \<and> (\<lambda>v. if v \<in> {Turbine 0, Turbine 1, Link (0, 1)} then 1 else (0::int)) (Turbine j) = 1}) * 800000 \<and>
     final_opex_annual rep =
       int (card {j. j < 2 \<and> (\<lambda>v. if v \<in> {Turbine 0, Turbine 1, Link (0, 1)} then 1 else (0::int)) (Turbine j) = 1}) * 1200000 \<and>
     final_total_cost rep = final_capex rep + 10 * final_opex_annual rep"
  by (rule interpret_result_costs)

section \<open>Infeasible deployments\<close>


lemma sum_binary_card:
  assumes "\<forall>j < n. is_binary \<sigma> (Turbine j)"
  shows "(\<Sum>j < n. \<sigma> (Turbine j)) = int (card {j. j < n \<and> \<sigma> (Turbine j) = 1})"
proof -
  have "(\<Sum>j < n. \<sigma> (Turbine j)) = (\<Sum>j \<in> {..<n}. if \<sigma> (Turbine j) = 1 then 1 else 0)"
    by (rule sum.cong) (use assms in \<open>auto simp: is_binary_def\<close>)
  also have "\<dots> = (\<Sum>j \<in> {j \<in> {..<n}. \<sigma> (Turbine j) = 1}. 1)"
    by (rule sum.inter_filter[symmetric]) simp
  also have "\<dots> = int (card {j. j < n \<and> \<sigma> (Turbine j) = 1})" by simp
  finally show ?thesis .
qed

lemma constraints_assemble:
  "nc \<in> set (constraints (assemble n W Z S L V)) \<longleftrightarrow>
     nc = tree_constraint n \<or> (\<exists>i < W. nc = water_constraint n S i) \<or>
     (\<exists>z < Z. nc = zone_constraint n L z) \<or>
     (\<exists>j k. j < k \<and> k < n \<and> nc \<in> set (link_constraints V (j, k))) \<or>
     (\<exists>j < n. nc = degree_constraint n j)"
  by (auto simp: assemble_def set_links locations_def)

lemma build_V_no_pair_in_range:
  assumes "\<forall>j k. j < k \<and> k < n \<longrightarrow> \<not> linalg_norm (cj ! j) (cj ! k) \<le> r"
    and "j < n" and "k < n"
  shows "build_V linalg_norm n r cj ! j ! k = 0"
proof (cases "j = k")
  case True
  then show ?thesis using assms(2) by (simp add: nth_build_V)
next
  case False
  then have "min j k < max j k" "max j k < n" using assms(2,3) by auto
  then have "\<not> linalg_norm (cj ! min j k) (cj ! max j k) \<le> r" using assms(1) by blast
  then show ?thesis using assms(2,3) by (simp add: nth_build_V)
qed

lemma constraint_names:
  "fst (tree_constraint n) = Force_Tree_Network"
  "fst (water_constraint n S i) = WaterCoverage i"
  "fst (zone_constraint n L z) = RainZone z"
  "fst (degree_constraint n j) = ConnectivityEnforcement j"
  by (simp_all add: tree_constraint_def water_constraint_def zone_constraint_def
      degree_constraint_def)

lemma link_constraint_names:
  "nc \<in> set (link_constraints V (j, k)) \<Longrightarrow> fst nc = LinkActivation j k \<or> fst nc = LineOfSight j k"
  by (auto simp: link_constraints_def)

lemma sum_select:
  assumes "s < n"
  shows "(\<Sum>j < n. f j * (if Turbine j = Turbine s then 1 else (0::int))) = f s"
proof -
  have "(\<Sum>j < n. f j * (if Turbine j = Turbine s then 1 else 0)) =
        (\<Sum>j \<in> {..<n}. if s = j then f j else 0)"
    by (rule sum.cong) auto
  also have "\<dots> = f s" using assms by (simp add: sum.delta)
  finally show ?thesis .
qed

lemma solver_answer_infeasible:
  assumes "\<forall>\<sigma>. \<not> feasible p \<sigma>"
  shows "(\<forall>st \<sigma>. solver_answer p st \<sigma> \<longrightarrow> st = Infeasible) \<and> (\<forall>\<sigma>. solver_answer p Infeasible \<sigma>)"
  using assms by (auto simp: solver_answer_def)

text \<open>
  C7, for sites at pairwise positive computed distances. With communication range 0 and
  every two candidate sites at a computed distance above 0, \<open>V\<close> is zero everywhere,
  the assembled problem has no feasible assignment, and the solver's status is
  \<open>Infeasible\<close>, whatever the coverage constraints force.
\<close>

theorem zero_range_infeasible:
  assumes "length coords_j = num_locations"
    and "comm_link_range = Fin 0"
    and "\<forall>j k. j < k \<and> k < num_locations \<longrightarrow>
           Fin 0 < linalg_norm (coords_j ! j) (coords_j ! k)"
    and "V = build_V linalg_norm num_locations comm_link_range coords_j"
    and "p = assemble num_locations num_water_areas num_rain_zones S_W L_Z V"
  shows "(\<forall>\<sigma>. \<not> feasible p \<sigma>) \<and>
         (\<forall>st \<sigma>. solver_answer p st \<sigma> \<longrightarrow> st = Infeasible) \<and>
         (\<forall>\<sigma>. solver_answer p Infeasible \<sigma>)"
proof -
  have far: "\<forall>j k. j < k \<and> k < num_locations \<longrightarrow>
               \<not> linalg_norm (coords_j ! j) (coords_j ! k) \<le> comm_link_range"
    using assms(3) unfolding assms(2) by (simp add: not_le)
  have "\<not> feasible p \<sigma>" for \<sigma>
  proof
    assume "feasible p \<sigma>"
    from feasible_active_link[OF this[unfolded assms(5)]]
    obtain j k where jk: "j < k" "k < num_locations" and v: "1 \<le> V ! j ! k" by blast
    have "j < num_locations" using jk by simp
    from build_V_no_pair_in_range[OF far this jk(2)] have "V ! j ! k = 0"
      by (simp add: assms(4))
    with v show False by simp
  qed
  then have "\<forall>\<sigma>. \<not> feasible p \<sigma>" by blast
  with solver_answer_infeasible[OF this] show ?thesis by blast
qed

theorem zero_range_infeasible_witness:
  "length ([(0, 0), (1000, 0)] :: point list) = 2 \<and>
   Fin 0 < np_norm (0, 0) (1000, 0) \<and>
   \<not> (\<exists>\<sigma>. feasible (assemble 2 2 1 [[1, 0], [0, 1]] [[1, 1]] (build_V np_norm 2 (Fin 0) [(0, 0), (1000, 0)])) \<sigma>) \<and>
   \<not> (\<exists>\<sigma>. solver_answer
      (assemble 2 2 1 [[1, 0], [0, 1]] [[1, 1]] (build_V np_norm 2 (Fin 0) [(0, 0), (1000, 0)])) Optimal \<sigma>) \<and>
   solver_answer
      (assemble 2 2 1 [[1, 0], [0, 1]] [[1, 1]] (build_V np_norm 2 (Fin 0) [(0, 0), (1000, 0)])) Infeasible
      (\<lambda>v. 0)"
proof -
  have h1: "length ([(0, 0), (1000, 0)] :: point list) = 2" by simp
  have d: "Fin 0 < np_norm (0, 0) (1000, 0)" by (simp add: np_norm_values less_float64_def)
  have h3: "\<forall>j k. j < k \<and> k < 2 \<longrightarrow>
               Fin 0 < np_norm ([(0, 0), (1000, 0)] ! j) ([(0, 0), (1000, 0)] ! k)"
  proof (intro allI impI)
    fix j k :: nat assume "j < k \<and> k < 2"
    then have "j = 0" "k = 1" by auto
    then show "Fin 0 < np_norm ([(0, 0), (1000, 0)] ! j) ([(0, 0), (1000, 0)] ! k)"
      using d by simp
  qed
  from zero_range_infeasible[OF h1 refl h3 refl refl, where num_water_areas = 2
      and num_rain_zones = 1 and S_W = "[[1, 0], [0, 1]]" and L_Z = "[[1, 1]]"] h1 d
  show ?thesis by blast
qed

text \<open>
  Range 0 does not exclude every link: sites at the same position are at distance
  \<open>0 \<le> 0\<close> (and so are sites as close as \<open>(0, 0)\<close> and \<open>(2 ^ (- 600), 0)\<close>, whose
  squared difference underflows to 0: \<open>np_norm_underflows\<close>). Three sites at one position and two at another, one water area at each
  position (no site covers both, so that coverage needs a site of each group), one rain
  zone: the triangle on the first group and the link of the second group give 4 active
  links for 5 selected sites, and every constraint holds.
\<close>

theorem zero_range_coincident_sites_counterexample:
  "build_S_W np_norm 2 5 (Fin 500) [(0, 0), (1000, 0)] [(0, 0), (0, 0), (0, 0), (1000, 0), (1000, 0)] =
     [[1, 1, 1, 0, 0], [0, 0, 0, 1, 1]] \<and>
   repair_pass np_norm 2 5 [(0, 0), (1000, 0)] [(0, 0), (0, 0), (0, 0), (1000, 0), (1000, 0)]
     [[1, 1, 1, 0, 0], [0, 0, 0, 1, 1]] = Inr [[1, 1, 1, 0, 0], [0, 0, 0, 1, 1]] \<and>
   build_L_Z 1 5 [0, 0, 0, 0] = Inr [[1, 1, 1, 1, 1]] \<and>
   build_V np_norm 5 (Fin 0) [(0, 0), (0, 0), (0, 0), (1000, 0), (1000, 0)] =
     [[0, 1, 1, 0, 0], [1, 0, 1, 0, 0], [1, 1, 0, 0, 0], [0, 0, 0, 0, 1], [0, 0, 0, 1, 0]] \<and>
   \<not> list_ex (\<lambda>s. list_all (\<lambda>i. [[1, 1, 1, 0, 0], [0, 0, 0, 1, 1::int]] ! i ! s = 1) [0..<2])
       [0..<5] \<and>
   feasible
     (assemble 5 2 1 [[1, 1, 1, 0, 0], [0, 0, 0, 1, 1]] [[1, 1, 1, 1, 1]]
        [[0, 1, 1, 0, 0], [1, 0, 1, 0, 0], [1, 1, 0, 0, 0], [0, 0, 0, 0, 1], [0, 0, 0, 1, 0]])
     (\<lambda>v. if v \<in> {Turbine 0, Turbine 1, Turbine 2, Turbine 3, Turbine 4,
                     Link (0, 1), Link (0, 2), Link (1, 2), Link (3, 4)} then 1 else 0)"
proof (intro conjI)
  show "build_S_W np_norm 2 5 (Fin 500) [(0, 0), (1000, 0)] [(0, 0), (0, 0), (0, 0), (1000, 0), (1000, 0)] =
     [[1, 1, 1, 0, 0], [0, 0, 0, 1, 1]]"
    by (simp add: build_S_W_def S_W_body_def zeros_def set_entry_def np_norm_values less_float64_def upt_rec
        eval_nat_numeral)
  show "repair_pass np_norm 2 5 [(0, 0), (1000, 0)] [(0, 0), (0, 0), (0, 0), (1000, 0), (1000, 0)]
     [[1, 1, 1, 0, 0], [0, 0, 0, 1, 1]] = Inr [[1, 1, 1, 0, 0], [0, 0, 0, 1, 1]]"
    by (simp add: repair_pass_def repair_body_def upt_rec eval_nat_numeral)
  show "build_L_Z 1 5 [0, 0, 0, 0] = Inr [[1, 1, 1, 1, 1]]"
    by (simp add: build_L_Z_def zeros_def set_item_def set_entry_def enumerate_eq_zip upt_rec
        eval_nat_numeral)
  show "build_V np_norm 5 (Fin 0) [(0, 0), (0, 0), (0, 0), (1000, 0), (1000, 0)] =
     [[0, 1, 1, 0, 0], [1, 0, 1, 0, 0], [1, 1, 0, 0, 0], [0, 0, 0, 0, 1], [0, 0, 0, 1, 0]]"
    by (simp add: build_V_def V_body_def zeros_def set_entry_def np_norm_values less_float64_def upt_rec
        eval_nat_numeral)
  show "\<not> list_ex
     (\<lambda>s. list_all (\<lambda>i. [[1, 1, 1, 0, 0], [0, 0, 0, 1, 1::int]] ! i ! s = 1) [0..<2]) [0..<5]"
    by code_simp
  show "feasible
     (assemble 5 2 1 [[1, 1, 1, 0, 0], [0, 0, 0, 1, 1]] [[1, 1, 1, 1, 1]]
        [[0, 1, 1, 0, 0], [1, 0, 1, 0, 0], [1, 1, 0, 0, 0], [0, 0, 0, 0, 1], [0, 0, 0, 1, 0]])
     (\<lambda>v. if v \<in> {Turbine 0, Turbine 1, Turbine 2, Turbine 3, Turbine 4,
                     Link (0, 1), Link (0, 2), Link (1, 2), Link (3, 4)} then 1 else 0)"
    by code_simp
qed


text \<open>
  C1, the deployment of a single site. Let one site \<open>s\<close> cover every water area and
  lie in the single rain zone. The assignment that selects exactly \<open>s\<close> and no link gives every declared
  variable a binary value and satisfies every constraint except
  \<open>ConnectivityEnforcement_s\<close>, which it violates; so it is not feasible. No answer
  \<open>Optimal\<close> of the solver selects fewer than two sites, and with a single candidate
  site the problem has no feasible assignment and the status is \<open>Infeasible\<close>.
\<close>

theorem single_site_deployment_infeasible:
  assumes "s < num_locations"
    and "length coords_j = num_locations"
    and "V = build_V linalg_norm num_locations comm_link_range coords_j"
    and "\<forall>i < num_water_areas. S_W ! i ! s = 1"
    and "num_rain_zones = 1"
    and "L_Z ! 0 ! s = 1"
    and "p = assemble num_locations num_water_areas num_rain_zones S_W L_Z V"
    and "\<sigma> = (\<lambda>v. if v = Turbine s then 1 else 0)"
  shows "list_all (is_binary \<sigma>) (variables p) \<and>
         list_all (holds \<sigma>) (constraints_except p (ConnectivityEnforcement s)) \<and>
         constraints_named p (ConnectivityEnforcement s) \<noteq> [] \<and>
         list_all (\<lambda>c. \<not> holds \<sigma> c) (constraints_named p (ConnectivityEnforcement s)) \<and>
         \<not> feasible p \<sigma> \<and>
         (\<forall>\<sigma>'. solver_answer p Optimal \<sigma>' \<longrightarrow>
               2 \<le> card {j. j < num_locations \<and> \<sigma>' (Turbine j) = 1}) \<and>
         (num_locations = 1 \<longrightarrow>
            (\<forall>\<sigma>'. \<not> feasible p \<sigma>') \<and> (\<forall>st \<sigma>'. solver_answer p st \<sigma>' \<longrightarrow> st = Infeasible))"
proof -
  let ?n = num_locations
  have sx: "\<And>j. \<sigma> (Turbine j) = (if Turbine j = Turbine s then 1 else 0)"
    and sy: "\<And>l. \<sigma> (Link l) = 0"
    by (simp_all add: assms(8))
  have bin: "list_all (is_binary \<sigma>) (variables p)"
    by (simp add: list_all_iff is_binary_def assms(8))
  have count: "(\<Sum>j < ?n. \<sigma> (Turbine j)) = 1"
    using sum_select[OF assms(1), of "\<lambda>_. 1"] by (simp add: sx)
  have deg_s: "\<not> holds \<sigma> (snd (degree_constraint ?n s))"
    by (simp add: holds_degree[OF assms(1)] sx sy)
  have others: "holds \<sigma> (snd nc)"
    if mem: "nc \<in> set (constraints p)" and nm: "fst nc \<noteq> ConnectivityEnforcement s" for nc
  proof -
    from mem[unfolded assms(7) constraints_assemble]
    consider "nc = tree_constraint ?n"
      | i where "i < num_water_areas" "nc = water_constraint ?n S_W i"
      | z where "z < num_rain_zones" "nc = zone_constraint ?n L_Z z"
      | j k where "j < k" "k < ?n" "nc \<in> set (link_constraints V (j, k))"
      | j where "j < ?n" "nc = degree_constraint ?n j"
      by blast
    then show ?thesis
    proof cases
      case 1
      then show ?thesis by (simp add: holds_tree count sy)
    next
      case (2 i)
      have "(\<Sum>j < ?n. S_W ! i ! j * \<sigma> (Turbine j)) = S_W ! i ! s"
        unfolding sx using assms(1) by (rule sum_select)
      with 2 assms(4) show ?thesis by (simp add: holds_water)
    next
      case (3 z)
      have "(\<Sum>j < ?n. L_Z ! z ! j * \<sigma> (Turbine j)) = L_Z ! z ! s"
        unfolding sx using assms(1) by (rule sum_select)
      with 3 assms(5,6) show ?thesis by (simp add: holds_zone)
    next
      case (4 j k)
      have "j < ?n" using 4 by simp
      then have "0 \<le> V ! j ! k" unfolding assms(3) using 4(2) by (simp add: nth_build_V)
      then have "list_all (\<lambda>nc. holds \<sigma> (snd nc)) (link_constraints V (j, k))"
        by (simp add: holds_link sy sx)
      with 4(3) show ?thesis by (simp add: list_all_iff)
    next
      case (5 j)
      with nm have "j \<noteq> s" by (auto simp: constraint_names)
      with 5 show ?thesis by (simp add: holds_degree sx sy)
    qed
  qed
  have except: "list_all (holds \<sigma>) (constraints_except p (ConnectivityEnforcement s))"
    using others by (auto simp: constraints_except_def list_all_iff)
  have "degree_constraint ?n s \<in> set (constraints p)"
    unfolding assms(7) constraints_assemble using assms(1) by blast
  then have "snd (degree_constraint ?n s) \<in> set (constraints_named p (ConnectivityEnforcement s))"
    by (force simp: constraints_named_def constraint_names)
  then have nonempty: "constraints_named p (ConnectivityEnforcement s) \<noteq> []" by auto
  have named: "c = snd (degree_constraint ?n s)"
    if "c \<in> set (constraints_named p (ConnectivityEnforcement s))" for c
  proof -
    from that obtain nc where mem: "nc \<in> set (constraints p)"
      and nm: "fst nc = ConnectivityEnforcement s" and c: "c = snd nc"
      by (auto simp: constraints_named_def)
    from mem[unfolded assms(7) constraints_assemble] nm
    have "\<exists>j < ?n. nc = degree_constraint ?n j"
      by (auto simp: constraint_names dest: link_constraint_names)
    then obtain j where "nc = degree_constraint ?n j" by blast
    with nm c show ?thesis by (simp add: constraint_names)
  qed
  have violated: "list_all (\<lambda>c. \<not> holds \<sigma> c) (constraints_named p (ConnectivityEnforcement s))"
    using named deg_s by (auto simp: list_all_iff)
  have two: "2 \<le> (\<Sum>j < ?n. \<sigma>' (Turbine j))" if "feasible p \<sigma>'" for \<sigma>'
    using that unfolding assms(7) by (rule feasible_two_sites)
  have infeas: "\<not> feasible p \<sigma>" using two[of \<sigma>] count by auto
  have opt: "2 \<le> card {j. j < ?n \<and> \<sigma>' (Turbine j) = 1}" if "solver_answer p Optimal \<sigma>'" for \<sigma>'
  proof -
    from that have f: "feasible p \<sigma>'" by (rule solver_answer_Optimal_feasible)
    then have "\<forall>j < ?n. is_binary \<sigma>' (Turbine j)"
      unfolding assms(7) feasible_assemble_iff by blast
    from sum_binary_card[OF this] two[OF f] show ?thesis by simp
  qed
  have single: "(\<forall>\<sigma>'. \<not> feasible p \<sigma>') \<and> (\<forall>st \<sigma>'. solver_answer p st \<sigma>' \<longrightarrow> st = Infeasible)"
    if n1: "?n = 1"
  proof -
    have "\<not> feasible p \<sigma>'" for \<sigma>'
    proof
      assume f: "feasible p \<sigma>'"
      then have "is_binary \<sigma>' (Turbine 0)"
        unfolding assms(7) feasible_assemble_iff using n1 by simp
      moreover have "2 \<le> \<sigma>' (Turbine 0)" using two[OF f] n1 by simp
      ultimately show False by (auto simp: is_binary_def)
    qed
    then have "\<forall>\<sigma>'. \<not> feasible p \<sigma>'" by blast
    with solver_answer_infeasible[OF this] show ?thesis by blast
  qed
  from bin except nonempty violated infeas opt single show ?thesis by blast
qed

text \<open>
  Scenario A: one site, one water area at the site, one rain zone. The matrices the
  program builds, and the assignment that selects site 0.
\<close>

theorem single_site_scenario_counterexample:
  "build_S_W np_norm 1 1 (Fin 500) [(0, 0)] [(0, 0)] = [[1]] \<and>
   repair_pass np_norm 1 1 [(0, 0)] [(0, 0)] [[1]] = Inr [[1]] \<and>
   build_L_Z 1 1 [] = Inr [[1]] \<and>
   build_V np_norm 1 (Fin 1500) [(0, 0)] = [[0]] \<and>
   \<not> feasible (assemble 1 1 1 [[1]] [[1]] [[0]]) (\<lambda>v. if v = Turbine 0 then 1 else 0) \<and>
   \<not> solver_answer (assemble 1 1 1 [[1]] [[1]] [[0]]) Optimal (\<lambda>v. if v = Turbine 0 then 1 else 0)"
proof -
  have nf: "\<not> feasible (assemble 1 1 1 [[1]] [[1]] [[0]]) (\<lambda>v. if v = Turbine 0 then 1 else 0)"
    by code_simp
  have "build_S_W np_norm 1 1 (Fin 500) [(0, 0)] [(0, 0)] = [[1]]"
    by (simp add: build_S_W_def S_W_body_def zeros_def set_entry_def np_norm_values less_float64_def)
  moreover have "repair_pass np_norm 1 1 [(0, 0)] [(0, 0)] [[1]] = Inr [[1]]"
    by (simp add: repair_pass_def repair_body_def)
  moreover have "build_L_Z 1 1 [] = Inr [[1]]"
    by (simp add: build_L_Z_def zeros_def set_item_def set_entry_def)
  moreover have "build_V np_norm 1 (Fin 1500) [(0, 0)] = [[0]]"
    by (simp add: build_V_def zeros_def)
  ultimately show ?thesis using nf by (simp add: solver_answer_def)
qed

theorem single_site_deployment_infeasible_witness:
  "(0::nat) < 1 \<and> length ([(0, 0)] :: point list) = 1 \<and> [[1::int]] ! 0 ! 0 = 1 \<and>
   \<not> feasible (assemble 1 1 1 [[1]] [[1]] (build_V np_norm 1 (Fin 1500) [(0, 0)]))
       (\<lambda>v. if v = Turbine 0 then 1 else 0) \<and>
   \<not> (\<exists>\<sigma>'. feasible (assemble 1 1 1 [[1]] [[1]] (build_V np_norm 1 (Fin 1500) [(0, 0)])) \<sigma>') \<and>
   \<not> (\<exists>\<sigma>'. solver_answer (assemble 1 1 1 [[1]] [[1]] (build_V np_norm 1 (Fin 1500) [(0, 0)])) Optimal \<sigma>')"
proof -
  have h1: "(0::nat) < 1" by simp
  have h2: "length ([(0, 0)] :: point list) = 1" by simp
  have h4: "\<forall>i < 1. [[1::int]] ! i ! 0 = 1" by simp
  have h6: "[[1::int]] ! 0 ! 0 = 1" by simp
  from single_site_deployment_infeasible[OF h1 h2 refl h4 refl h6 refl refl,
      where linalg_norm = np_norm and comm_link_range = "Fin 1500"] h1 h2 h6
  show ?thesis by blast
qed

end
